theory Spec2Isabelle
  imports Main "HOL-Library.Sublist"
begin

section \<open>Data model\<close>

text \<open>
  The question page script keeps its whole state in a handful of variables of one closure:
  the registry \<open>questionStates\<close>, the \<open>processingBuffer\<close>, the list \<open>allQuestions\<close>,
  the map \<open>questionData\<close>, and the rate limiter's \<open>apiCallQueue\<close>, \<open>isProcessingQueue\<close> and
  \<open>lastAPICallTime\<close>. Images and the API key live in \<open>localStorage\<close>.
\<close>

text \<open>The four state strings the script writes: 'unsolved', 'extracted', 'solving', 'solved'
  (the badge shown for 'extracted' reads EXTRACTING).\<close>

datatype qstate = Unsolved | Extracted | Solving | Solved

text \<open>A stored image \<open>{ dataUrl, questionNumber }\<close>; \<open>None\<close> is an absent question number.\<close>

record image =
  dataUrl :: string
  questionNumber :: "string option"

text \<open>
  A value as the script reads it from a parsed response and keeps it in a text field: a
  string, \<open>null\<close>, \<open>undefined\<close>, or any other value, which is given by its conversion to a
  string.
\<close>

datatype jsvalue = Str string | Null | Undefined | Other string

text \<open>The conversion that a template literal applies to a value.\<close>

fun to_string :: "jsvalue \<Rightarrow> string" where
  "to_string (Str x) = x"
| "to_string Null = ''null''"
| "to_string Undefined = ''undefined''"
| "to_string (Other x) = x"

text \<open>An entry \<open>{ extractedText, solvedText }\<close> of \<open>questionData\<close>.\<close>

record qdata =
  extractedText :: jsvalue
  solvedText :: jsvalue

text \<open>A JavaScript \<open>Error\<close> with its message.\<close>

datatype error = Error (message: string)

definition BUFFER_SIZE :: nat where
  "BUFFER_SIZE = 3"

definition RATE_LIMIT_DELAY :: int where
  "RATE_LIMIT_DELAY = 2000"

section \<open>Images and question identifiers\<close>

text \<open>\<open>x || 'No Q#'\<close>: an absent or empty question number is falsy.\<close>

definition questionKey :: "image \<Rightarrow> string" where
  "questionKey img =
     (case questionNumber img of
        None \<Rightarrow> ''No Q#''
      | Some n \<Rightarrow> (if n = [] then ''No Q#'' else n))"

definition getQuestionImages :: "image list \<Rightarrow> string \<Rightarrow> image list" where
  "getQuestionImages images qn = filter (\<lambda>img. questionKey img = qn) images"

text \<open>The grouping loop of \<open>renderQuestionButtons\<close>: a \<open>Map\<close> keeps its keys in the order of
  their first insertion, and \<open>allQuestions\<close> is the list of those keys.\<close>

fun uniqueQuestions :: "string list \<Rightarrow> image list \<Rightarrow> string list" where
  "uniqueQuestions keys [] = keys"
| "uniqueQuestions keys (imageObj # rest) =
     (let qn = questionKey imageObj
      in if qn \<in> set keys then uniqueQuestions keys rest
         else uniqueQuestions (keys @ [qn]) rest)"

section \<open>The AI service client\<close>

text \<open>
  What one \<open>fetch\<close> of the completion endpoint can come back with.
  \<^item> The request itself rejects, with a message.
  \<^item> The response is not \<open>ok\<close>: its status, its status text and its body. The body is read
    by \<open>response.json().catch(() => ({}))\<close>. When it parses to \<open>null\<close>, reading
    \<open>errorData.error\<close> throws a \<open>TypeError\<close>, with the message the engine gives it. Otherwise
    \<open>errorData.error?.message\<close> is a truthy value, given by its conversion to a string, or
    it is not.
  \<^item> The response is \<open>ok\<close> and its body does not parse: \<open>response.json()\<close> rejects.
  \<^item> The response is \<open>ok\<close> and \<open>data\<close> is \<open>null\<close>: reading \<open>data.choices\<close> throws a
    \<open>TypeError\<close>.
  \<^item> The response is \<open>ok\<close> with any other \<open>data\<close>. Of it the code reads \<open>data.choices\<close>,
    which is falsy or holds choices; of a choice whether it and its \<open>message\<close> are
    truthy; and of such a message the \<open>content\<close>, which may be any value and is
    \<open>undefined\<close> when the message has none.
\<close>

datatype not_ok_body = BodyNull string | BodyError "string option"

datatype response =
    FetchRejected string
  | NotOk nat string not_ok_body
  | JsonRejected string
  | DataNull string
  | Data "jsvalue option list option"

fun digit_char :: "nat \<Rightarrow> char" where
  "digit_char n = ''0123456789'' ! n"

fun show_nat :: "nat \<Rightarrow> string" where
  "show_nat n = (if n < 10 then [digit_char n] else show_nat (n div 10) @ [digit_char (n mod 10)])"

declare show_nat.simps [simp del]

text \<open>The closure \<open>apiCallFunction\<close> of \<open>callTogetherAPI\<close>: it returns
  \<open>data.choices[0].message.content\<close> as it finds it, or throws.\<close>

fun apiCallFunction :: "response \<Rightarrow> error + jsvalue" where
  "apiCallFunction (FetchRejected m) = Inl (Error m)"
| "apiCallFunction (NotOk status statusText (BodyNull m)) = Inl (Error m)"
| "apiCallFunction (NotOk status statusText (BodyError em)) =
     Inl (Error (''API call failed: '' @ show_nat status @ '' '' @ statusText @ ''. '' @
                 (case em of None \<Rightarrow> '''' | Some m \<Rightarrow> m)))"
| "apiCallFunction (JsonRejected m) = Inl (Error m)"
| "apiCallFunction (DataNull m) = Inl (Error m)"
| "apiCallFunction (Data None) = Inl (Error ''Invalid response format from API'')"
| "apiCallFunction (Data (Some [])) = Inl (Error ''Invalid response format from API'')"
| "apiCallFunction (Data (Some (None # _))) = Inl (Error ''Invalid response format from API'')"
| "apiCallFunction (Data (Some (Some content # _))) = Inr content"

text \<open>\<open>!apiKey\<close>: no stored key, or an empty one.\<close>

definition noKey :: "string option \<Rightarrow> bool" where
  "noKey k = (k = None \<or> k = Some [])"

text \<open>\<open>extract\<close> up to its call of \<open>callTogetherAPI\<close>: it throws, or has the images of the
  request.\<close>

definition extract_request :: "string \<Rightarrow> string option \<Rightarrow> image list \<Rightarrow> error + image list" where
  "extract_request qn key imgs =
     (if noKey key then Inl (Error ''Please configure your Together AI API key first'')
      else let images = getQuestionImages imgs qn
           in if length images = 0 then Inl (Error (''No images found for question '' @ qn))
              else Inr images)"

definition extract_fallback :: "string \<Rightarrow> error \<Rightarrow> string" where
  "extract_fallback qn e =
     ''Error extracting content for Question '' @ qn @ '': '' @ message e @
     ''. Please check your API configuration and try again.''"

text \<open>The end of \<open>extract\<close>: the awaited call's value is returned, anything thrown inside the
  \<open>try\<close> reaches the \<open>catch\<close>, which returns the fallback text.\<close>

definition extract_settle :: "string \<Rightarrow> error + jsvalue \<Rightarrow> error + jsvalue" where
  "extract_settle qn r =
     (case r of Inr extracted \<Rightarrow> Inr extracted | Inl e \<Rightarrow> Inr (Str (extract_fallback qn e)))"

text \<open>One whole run of \<open>extract\<close> (named \<open>extract_fn\<close> here, \<open>extract\<close> being a keyword), given the storage it reads and the answer its request
  gets (which it reads only when it sends one).\<close>

definition extract_fn :: "string \<Rightarrow> string option \<Rightarrow> image list \<Rightarrow> response \<Rightarrow> error + jsvalue" where
  "extract_fn qn key imgs resp =
     extract_settle qn
       (case extract_request qn key imgs of
          Inl e \<Rightarrow> Inl e
        | Inr images \<Rightarrow> apiCallFunction resp)"

definition solve_request :: "string option \<Rightarrow> error + unit" where
  "solve_request key =
     (if noKey key then Inl (Error ''Please configure your Together AI API key first'')
      else Inr ())"

definition solve_fallback :: "string \<Rightarrow> jsvalue \<Rightarrow> error \<Rightarrow> string" where
  "solve_fallback qn extracted e =
     ''Error solving Question '' @ qn @ '': '' @ message e @ ''. '' @ [CHR 0x0A, CHR 0x0A] @
     ''Original extracted content:'' @ [CHR 0x0A] @ to_string extracted @ [CHR 0x0A, CHR 0x0A] @
     ''Please check your API configuration and try again.''"

definition solve_settle :: "string \<Rightarrow> jsvalue \<Rightarrow> error + jsvalue \<Rightarrow> error + jsvalue" where
  "solve_settle qn extracted r =
     (case r of Inr solved \<Rightarrow> Inr solved | Inl e \<Rightarrow> Inr (Str (solve_fallback qn extracted e)))"

definition solve :: "string \<Rightarrow> jsvalue \<Rightarrow> string option \<Rightarrow> response \<Rightarrow> error + jsvalue" where
  "solve qn extracted key resp =
     solve_settle qn extracted
       (case solve_request key of
          Inl e \<Rightarrow> Inl e
        | Inr u \<Rightarrow> apiCallFunction resp)"

section \<open>The scheduler's state\<close>

text \<open>
  A task is one invocation of \<open>processQuestion\<close>. It suspends at \<open>await extract(...)\<close> and at
  \<open>await solve(...)\<close>; at the second it holds the local \<open>extractedText\<close>.
\<close>

datatype stage = Extraction | Solution jsvalue

text \<open>
  An entry \<open>{ apiCallFunction, resolve, reject }\<close> of \<open>apiCallQueue\<close>. Its \<open>resolve\<close> and
  \<open>reject\<close> settle the promise that one task awaits (through \<open>callTogetherAPI\<close> and
  \<open>extract\<close> or \<open>solve\<close>), so the entry is named by that task (numbered in the order
  of creation), its question and the await it is suspended at.
\<close>

record call =
  task :: nat
  question :: string
  stage :: stage

text \<open>
  An invocation of \<open>processAPIQueue\<close> that has not returned is suspended at one of its two
  awaits: the \<open>setTimeout\<close> promise (with the time at which the timer is due) or the
  promise of the \<open>apiCallFunction\<close> it has started.
\<close>

datatype loop = Waiting int | InFlight call

text \<open>What an observer of the page sees, in order: a submission to \<open>rateLimitedAPICall\<close>, the
  start and the completion of an outbound call with the value of \<open>Date.now()\<close>, and the writes
  of a task to the registry and to \<open>solvedText\<close>.\<close>

datatype obs =
    Submit call
  | Start call int
  | Finish call int
  | SetState nat string qstate
  | SetSolvedText nat string jsvalue

record state =
  now :: int
  images :: "image list"
  apiKey :: "string option"
  questionStates :: "string \<rightharpoonup> qstate"
  processingBuffer :: "string list"
  allQuestions :: "string list"
  lastAPICallTime :: int
  apiCallQueue :: "call list"
  isProcessingQueue :: bool
  questionData :: "string \<rightharpoonup> qdata"
  loops :: "(nat \<times> loop) list"
  ready :: "(call \<times> (error + jsvalue)) list"
  nextTask :: nat
  nextLoop :: nat
  querySelector :: "string \<Rightarrow> error option"
  resetButton :: bool
  trace :: "obs list"

text \<open>
  \<open>now\<close> is the clock read by \<open>Date.now()\<close>, \<open>images\<close> and \<open>apiKey\<close> are the two entries of
  \<open>localStorage\<close>. \<open>loops\<close> holds the suspended invocations of \<open>processAPIQueue\<close>, \<open>ready\<close> the
  tasks whose awaited \<open>extract\<close> or \<open>solve\<close> promise is settled and whose continuation has
  not run yet, with the settled result. \<open>trace\<close> records the observations.
  \<open>querySelector\<close> is \<open>document.querySelector\<close> as far as the script depends on it: for a
  selector, whether the call returns (\<open>None\<close>) or throws (the \<open>SyntaxError\<close> of a selector
  that does not parse); it is the same function as long as the page lives.
  \<open>resetButton\<close> says whether \<open>addResetButton\<close> has run. Calls to \<open>console.log\<close> change
  none of these and are left out.
\<close>

text \<open>The operations of the JavaScript \<open>Set\<close> that holds the buffer.\<close>

definition set_add :: "string list \<Rightarrow> string \<Rightarrow> string list" where
  "set_add xs x = (if x \<in> set xs then xs else xs @ [x])"

definition set_delete :: "string list \<Rightarrow> string \<Rightarrow> string list" where
  "set_delete xs x = filter (\<lambda>y. y \<noteq> x) xs"

text \<open>
  \<open>updateButtonState\<close> looks the button of a question up by the attribute selector that it
  builds from the question number as it is, and changes that button, if there is one. It
  changes nothing of the state; it returns, or it throws what \<open>querySelector\<close> throws.
\<close>

definition selector :: "string \<Rightarrow> string" where
  "selector qn = ''[data-question-number='' @ [CHR 0x22] @ qn @ [CHR 0x22] @ '']''"

definition updateButtonState :: "state \<Rightarrow> string \<Rightarrow> error option" where
  "updateButtonState s qn = querySelector s (selector qn)"

section \<open>The rate limiter\<close>

text \<open>The promise a task awaits is settled with what \<open>extract\<close> or \<open>solve\<close> returns.\<close>

definition settle :: "call \<Rightarrow> error + jsvalue \<Rightarrow> state \<Rightarrow> state" where
  "settle c r s =
     s\<lparr>ready := ready s @
          [(c, case stage c of
                 Extraction \<Rightarrow> extract_settle (question c) r
               | Solution extracted \<Rightarrow> solve_settle (question c) extracted r)]\<rparr>"

text \<open>
  \<open>apiCallQueue.shift()\<close> and the start of the call. On an empty queue \<open>shift\<close> returns
  \<open>undefined\<close>, the destructuring throws, and this invocation of \<open>processAPIQueue\<close> ends
  there, outside its \<open>try\<close>, without writing \<open>isProcessingQueue\<close>.
\<close>

definition dispatch :: "nat \<Rightarrow> state \<Rightarrow> state" where
  "dispatch lid s =
     (case apiCallQueue s of
        [] \<Rightarrow> s
      | c # rest \<Rightarrow>
          s\<lparr>apiCallQueue := rest,
            loops := loops s @ [(lid, InFlight c)],
            trace := trace s @ [Start c (now s)]\<rparr>)"

text \<open>The \<open>while\<close> loop of \<open>processAPIQueue\<close> from its test to the next await.\<close>

definition drain :: "nat \<Rightarrow> state \<Rightarrow> state" where
  "drain lid s =
     (if length (apiCallQueue s) > 0 then
        (let timeSinceLastCall = now s - lastAPICallTime s
         in if timeSinceLastCall < RATE_LIMIT_DELAY
            then s\<lparr>loops := loops s @
                     [(lid, Waiting (now s + (RATE_LIMIT_DELAY - timeSinceLastCall)))]\<rparr>
            else dispatch lid s)
      else s\<lparr>isProcessingQueue := False\<rparr>)"

definition processAPIQueue :: "state \<Rightarrow> state" where
  "processAPIQueue s =
     (if isProcessingQueue s \<or> length (apiCallQueue s) = 0 then s
      else drain (nextLoop s) (s\<lparr>isProcessingQueue := True, nextLoop := Suc (nextLoop s)\<rparr>))"

definition rateLimitedAPICall :: "call \<Rightarrow> state \<Rightarrow> state" where
  "rateLimitedAPICall c s =
     (let s1 = s\<lparr>apiCallQueue := apiCallQueue s @ [c], trace := trace s @ [Submit c]\<rparr>
      in if \<not> isProcessingQueue s1 then processAPIQueue s1 else s1)"

definition remove_loop :: "nat \<Rightarrow> (nat \<times> loop) list \<Rightarrow> (nat \<times> loop) list" where
  "remove_loop lid ls = filter (\<lambda>p. fst p \<noteq> lid) ls"

text \<open>The timer of a waiting loop fires, not before it is due.\<close>

definition timerFired :: "nat \<Rightarrow> state \<Rightarrow> state" where
  "timerFired lid s =
     (case map_of (loops s) lid of
        Some (Waiting due) \<Rightarrow>
          if due \<le> now s then dispatch lid (s\<lparr>loops := remove_loop lid (loops s)\<rparr>) else s
      | _ \<Rightarrow> s)"

text \<open>The call a loop has started comes back: \<open>lastAPICallTime = Date.now()\<close>, then
  \<open>resolve\<close> or \<open>reject\<close>, then the loop goes on.\<close>

definition callDone :: "nat \<Rightarrow> response \<Rightarrow> state \<Rightarrow> state" where
  "callDone lid resp s =
     (case map_of (loops s) lid of
        Some (InFlight c) \<Rightarrow>
          drain lid
            (settle c (apiCallFunction resp)
               (s\<lparr>loops := remove_loop lid (loops s),
                  lastAPICallTime := now s,
                  trace := trace s @ [Finish c (now s)]\<rparr>))
      | _ \<Rightarrow> s)"

section \<open>The pipeline scheduler\<close>

text \<open>
  \<open>processQuestion\<close> calls \<open>updateButtonState\<close> with its own question number each time it
  has written the registry, inside its \<open>try\<close>. A task runs for a question of
  \<open>allQuestions\<close>, and only on a page where \<open>initializeProcessing\<close> has called
  \<open>updateButtonState\<close> with every question of \<open>allQuestions\<close> and gone on to \<open>fillBuffer\<close>;
  the selector being the same, the call returns again. This is proved below for every
  state that an execution reaches (lemmas \<open>reachable_cases\<close>, \<open>tasks_in_registry\<close> and
  \<open>tasks_selectors_accepted\<close>). So the definitions of \<open>processQuestion\<close> leave these calls
  out: they describe the tasks of a page whose initialization got through, which are the
  only tasks there are. The calls that \<open>initializeProcessing\<close> makes are modelled.
\<close>

definition await_extract :: "nat \<Rightarrow> string \<Rightarrow> state \<Rightarrow> state" where
  "await_extract t qn s =
     (let c = \<lparr>task = t, question = qn, stage = Extraction\<rparr>
      in case extract_request qn (apiKey s) (images s) of
           Inl e \<Rightarrow> settle c (Inl e) s
         | Inr imgs \<Rightarrow> rateLimitedAPICall c s)"

definition await_solve :: "nat \<Rightarrow> string \<Rightarrow> jsvalue \<Rightarrow> state \<Rightarrow> state" where
  "await_solve t qn extracted s =
     (let c = \<lparr>task = t, question = qn, stage = Solution extracted\<rparr>
      in case solve_request (apiKey s) of
           Inl e \<Rightarrow> settle c (Inl e) s
         | Inr u \<Rightarrow> rateLimitedAPICall c s)"

text \<open>\<open>processQuestion\<close> from its call to its first await.\<close>

definition processQuestion_begin :: "string \<Rightarrow> state \<Rightarrow> state" where
  "processQuestion_begin qn s =
     (let t = nextTask s
      in await_extract t qn
           (s\<lparr>nextTask := Suc t,
              questionData := (questionData s)(qn \<mapsto> \<lparr>extractedText = Null, solvedText = Null\<rparr>),
              questionStates := (questionStates s)(qn \<mapsto> Extracted),
              trace := trace s @ [SetState t qn Extracted]\<rparr>))"

text \<open>The \<open>for\<close> loop of \<open>fillBuffer\<close>, with its counter \<open>added\<close>.\<close>

fun fillLoop :: "string list \<Rightarrow> nat \<Rightarrow> int \<Rightarrow> state \<Rightarrow> state" where
  "fillLoop [] added bufferSpaceAvailable s = s"
| "fillLoop (qn # rest) added bufferSpaceAvailable s =
     (if int added \<ge> bufferSpaceAvailable then s
      else if questionStates s qn = Some Unsolved
      then fillLoop rest (Suc added) bufferSpaceAvailable
             (processQuestion_begin qn
                (s\<lparr>processingBuffer := set_add (processingBuffer s) qn\<rparr>))
      else fillLoop rest added bufferSpaceAvailable s)"

definition fillBuffer :: "state \<Rightarrow> state" where
  "fillBuffer s =
     (let bufferSpaceAvailable = int BUFFER_SIZE - int (length (processingBuffer s))
      in if bufferSpaceAvailable \<le> 0 then s
         else fillLoop (allQuestions s) 0 bufferSpaceAvailable s)"

text \<open>The \<open>catch\<close> block of \<open>processQuestion\<close>.\<close>

definition processQuestion_catch :: "string \<Rightarrow> state \<Rightarrow> state" where
  "processQuestion_catch qn s =
     fillBuffer (s\<lparr>processingBuffer := set_delete (processingBuffer s) qn\<rparr>)"

text \<open>
  \<open>processQuestion\<close> from the return of \<open>await extract\<close> to the next await or to its end.
  \<open>questionData.get\<close> of a key that is not there is \<open>undefined\<close>, and writing a property of
  \<open>undefined\<close> throws.
\<close>

definition after_extract :: "nat \<Rightarrow> string \<Rightarrow> jsvalue \<Rightarrow> state \<Rightarrow> state" where
  "after_extract t qn extracted s =
     (case questionData s qn of
        None \<Rightarrow> processQuestion_catch qn s
      | Some d \<Rightarrow>
          (let s1 = s\<lparr>questionData := (questionData s)(qn \<mapsto> d\<lparr>extractedText := extracted\<rparr>)\<rparr>
           in if qn \<notin> set (processingBuffer s1) then s1
              else await_solve t qn extracted
                     (s1\<lparr>questionStates := (questionStates s1)(qn \<mapsto> Solving),
                         trace := trace s1 @ [SetState t qn Solving]\<rparr>)))"

text \<open>\<open>processQuestion\<close> from the return of \<open>await solve\<close> to its end.\<close>

definition after_solve :: "nat \<Rightarrow> string \<Rightarrow> jsvalue \<Rightarrow> state \<Rightarrow> state" where
  "after_solve t qn solved s =
     (case questionData s qn of
        None \<Rightarrow> processQuestion_catch qn s
      | Some d \<Rightarrow>
          (let s1 = s\<lparr>questionData := (questionData s)(qn \<mapsto> d\<lparr>solvedText := solved\<rparr>),
                      trace := trace s @ [SetSolvedText t qn solved]\<rparr>
           in if qn \<notin> set (processingBuffer s1) then s1
              else fillBuffer
                     (s1\<lparr>questionStates := (questionStates s1)(qn \<mapsto> Solved),
                         trace := trace s1 @ [SetState t qn Solved],
                         processingBuffer := set_delete (processingBuffer s1) qn\<rparr>)))"

text \<open>The first ready continuation of a task, and the rest.\<close>

fun take_ready :: "nat \<Rightarrow> (call \<times> (error + jsvalue)) list \<Rightarrow>
    ((call \<times> (error + jsvalue)) \<times> (call \<times> (error + jsvalue)) list) option" where
  "take_ready t [] = None"
| "take_ready t (p # ps) =
     (if task (fst p) = t then Some (p, ps)
      else case take_ready t ps of
             None \<Rightarrow> None
           | Some (x, rest) \<Rightarrow> Some (x, p # rest))"

text \<open>A task resumes with the result of the promise it awaited.\<close>

definition resume :: "nat \<Rightarrow> state \<Rightarrow> state" where
  "resume t s =
     (case take_ready t (ready s) of
        None \<Rightarrow> s
      | Some ((c, r), rest) \<Rightarrow>
          (let s1 = s\<lparr>ready := rest\<rparr>
           in case r of
                Inl e \<Rightarrow> processQuestion_catch (question c) s1
              | Inr text \<Rightarrow>
                  (case stage c of
                     Extraction \<Rightarrow> after_extract t (question c) text s1
                   | Solution extracted \<Rightarrow> after_solve t (question c) text s1)))"

text \<open>
  The \<open>forEach\<close> of \<open>initializeProcessing\<close>: each question is set to \<open>unsolved\<close> and its
  button updated. When \<open>updateButtonState\<close> throws, the questions after it are not
  reached.
\<close>

fun resetStates :: "string list \<Rightarrow> state \<Rightarrow> state \<times> error option" where
  "resetStates [] s = (s, None)"
| "resetStates (qn # rest) s =
     (let s1 = s\<lparr>questionStates := (questionStates s)(qn \<mapsto> Unsolved)\<rparr>
      in case updateButtonState s1 qn of
           Some e \<Rightarrow> (s1, Some e)
         | None \<Rightarrow> resetStates rest s1)"

text \<open>\<open>initializeProcessing\<close>, with the state it leaves and the error it throws, if it
  does.\<close>

definition initializeProcessing :: "state \<Rightarrow> state \<times> error option" where
  "initializeProcessing s =
     (let s0 = s\<lparr>questionStates := Map.empty,
                 processingBuffer := [],
                 apiCallQueue := [],
                 isProcessingQueue := False,
                 lastAPICallTime := 0\<rparr>
      in case resetStates (allQuestions s0) s0 of
           (s1, Some e) \<Rightarrow> (s1, Some e)
         | (s1, None) \<Rightarrow> (fillBuffer s1, None))"

text \<open>The handler of the reset button. What it throws goes to the console; the state is as
  it left it.\<close>

definition resetClick :: "state \<Rightarrow> state" where
  "resetClick s =
     fst (initializeProcessing
            (s\<lparr>processingBuffer := [],
               questionStates := Map.empty,
               questionData := Map.empty,
               apiCallQueue := [],
               isProcessingQueue := False,
               lastAPICallTime := 0\<rparr>))"

definition renderQuestionButtons :: "state \<Rightarrow> state \<times> error option" where
  "renderQuestionButtons s =
     (if length (images s) = 0 then (s, None)
      else initializeProcessing (s\<lparr>allQuestions := uniqueQuestions [] (images s)\<rparr>))"

text \<open>The variables as the script declares them, with the storage, the clock and the
  document that it finds.\<close>

definition declared :: "(string \<Rightarrow> error option) \<Rightarrow> image list \<Rightarrow> string option \<Rightarrow> int \<Rightarrow> state" where
  "declared qsel imgs key t =
     \<lparr>now = t, images = imgs, apiKey = key,
      questionStates = Map.empty, processingBuffer = [], allQuestions = [],
      lastAPICallTime = 0, apiCallQueue = [], isProcessingQueue = False,
      questionData = Map.empty, loops = [], ready = [],
      nextTask = 0, nextLoop = 0, querySelector = qsel, resetButton = False,
      trace = []\<rparr>"

text \<open>
  The page when the script has run: \<open>renderQuestionButtons\<close>, then \<open>addResetButton\<close>. When
  \<open>renderQuestionButtons\<close> throws, the script ends there and the page has no reset button.
\<close>

definition page_load :: "(string \<Rightarrow> error option) \<Rightarrow> image list \<Rightarrow> string option \<Rightarrow> int \<Rightarrow> state" where
  "page_load qsel imgs key t =
     (case renderQuestionButtons (declared qsel imgs key t) of
        (s, Some e) \<Rightarrow> s
      | (s, None) \<Rightarrow> s\<lparr>resetButton := True\<rparr>)"

section \<open>Executions\<close>

text \<open>
  Everything after the load happens in one of these events: a click on the reset button,
  time passing, the timer of a waiting loop, the answer to a call in flight, a task
  resuming, and a write to one of the two storage entries (the key saved on this page, the
  images changed from the upload page). An event that cannot happen in a state (no
  reset button, no such loop, no such task, timer not due) leaves the state as it is. The clock stands still
  while a handler or a continuation runs, and moves by \<open>Tick\<close> between them. The browser
  runs the ready continuations before it takes the next event; here they may run in any
  order and at any later time as well, which only adds executions.
\<close>

datatype event =
    ResetClick
  | Tick nat
  | TimerFire nat
  | CallDone nat response
  | Resume nat
  | StoreKey "string option"
  | StoreImages "image list"

fun step :: "event \<Rightarrow> state \<Rightarrow> state" where
  "step ResetClick s = (if resetButton s then resetClick s else s)"
| "step (Tick d) s = s\<lparr>now := now s + int d\<rparr>"
| "step (TimerFire lid) s = timerFired lid s"
| "step (CallDone lid resp) s = callDone lid resp s"
| "step (Resume t) s = resume t s"
| "step (StoreKey k) s = s\<lparr>apiKey := k\<rparr>"
| "step (StoreImages imgs) s = s\<lparr>images := imgs\<rparr>"

fun exec :: "event list \<Rightarrow> state \<Rightarrow> state" where
  "exec [] s = s"
| "exec (e # es) s = exec es (step e s)"

section \<open>Observations and invariants\<close>

text \<open>The calls submitted and the calls started, in order, as the trace shows them.\<close>

fun submits :: "obs list \<Rightarrow> call list" where
  "submits [] = []"
| "submits (Submit c # xs) = c # submits xs"
| "submits (x # xs) = submits xs"

fun starts :: "obs list \<Rightarrow> call list" where
  "starts [] = []"
| "starts (Start c t # xs) = c # starts xs"
| "starts (x # xs) = starts xs"

text \<open>
  The gate as a trace shows it: busy between the start of a call and its completion, idle
  otherwise, and when idle the time of the latest completion, if there was one.
\<close>

datatype gate = Idle "int option" | Busy

fun gate_after :: "gate \<Rightarrow> obs list \<Rightarrow> gate" where
  "gate_after g [] = g"
| "gate_after g (Start c t # xs) = gate_after Busy xs"
| "gate_after g (Finish c t # xs) = gate_after (Idle (Some t)) xs"
| "gate_after g (x # xs) = gate_after g xs"

text \<open>
  The rate floor on a trace: a call starts only when no call is in flight, and no earlier
  than \<open>RATE_LIMIT_DELAY\<close> after the completion of the call before it.
\<close>

fun floor_kept :: "gate \<Rightarrow> obs list \<Rightarrow> bool" where
  "floor_kept g [] = True"
| "floor_kept g (Start c t # xs) =
     (case g of
        Busy \<Rightarrow> False
      | Idle None \<Rightarrow> floor_kept Busy xs
      | Idle (Some tf) \<Rightarrow> tf + RATE_LIMIT_DELAY \<le> t \<and> floor_kept Busy xs)"
| "floor_kept g (Finish c t # xs) = floor_kept (Idle (Some t)) xs"
| "floor_kept g (x # xs) = floor_kept g xs"

text \<open>\<open>updateButtonState\<close> returns for every question of the registry.\<close>

definition selectors_accepted :: "state \<Rightarrow> bool" where
  "selectors_accepted s = (\<forall>qn \<in> set (allQuestions s). updateButtonState s qn = None)"

text \<open>
  The page whose load has thrown: no question was admitted, no call was made, nothing is
  suspended, and there is no reset button.
\<close>

definition load_aborted :: "state \<Rightarrow> bool" where
  "load_aborted s =
     (\<not> resetButton s \<and> processingBuffer s = [] \<and> apiCallQueue s = [] \<and>
      \<not> isProcessingQueue s \<and> loops s = [] \<and> ready s = [] \<and> trace s = [] \<and>
      questionData s = Map.empty)"

text \<open>The calls a loop has in flight.\<close>

fun in_flight :: "(nat \<times> loop) list \<Rightarrow> call list" where
  "in_flight [] = []"
| "in_flight ((l, InFlight c) # ls) = c # in_flight ls"
| "in_flight ((l, Waiting due) # ls) = in_flight ls"

text \<open>Every question of the buffer is being extracted or solved and has its data entry, and
  the buffer is within its capacity.\<close>

definition buffer_ok :: "state \<Rightarrow> bool" where
  "buffer_ok s =
     (length (processingBuffer s) \<le> BUFFER_SIZE \<and>
      (\<forall>qn \<in> set (processingBuffer s).
         (questionStates s qn = Some Extracted \<or> questionStates s qn = Some Solving) \<and>
         questionData s qn \<noteq> None))"

text \<open>No slot is left free while a question waits: the buffer is full or no question is
  unsolved.\<close>

definition backfilled :: "state \<Rightarrow> bool" where
  "backfilled s =
     (length (processingBuffer s) = BUFFER_SIZE \<or>
      (\<forall>qn \<in> set (allQuestions s). questionStates s qn \<noteq> Some Unsolved))"

text \<open>The order of the four states.\<close>

fun rank :: "qstate \<Rightarrow> nat" where
  "rank Unsolved = 0"
| "rank Extracted = 1"
| "rank Solving = 2"
| "rank Solved = 3"

definition sched_inv :: "state \<Rightarrow> bool" where
  "sched_inv s = (buffer_ok s \<and> backfilled s)"

text \<open>From one state to a later one no question's registry entry goes back, and none is
  lost.\<close>

definition advances :: "state \<Rightarrow> state \<Rightarrow> bool" where
  "advances s s' =
     (\<forall>qn. case questionStates s qn of
             None \<Rightarrow> True
           | Some a \<Rightarrow> (case questionStates s' qn of None \<Rightarrow> False | Some b \<Rightarrow> rank a \<le> rank b))"

text \<open>The registry entries of one question along an execution.\<close>

fun history :: "string \<Rightarrow> event list \<Rightarrow> state \<Rightarrow> qstate option list" where
  "history qn [] s = [questionStates s qn]"
| "history qn (e # es) s = questionStates s qn # history qn es (step e s)"

text \<open>The states from a given one on, in their order.\<close>

definition states_from :: "qstate \<Rightarrow> qstate list" where
  "states_from a = filter (\<lambda>x. rank a \<le> rank x) [Unsolved, Extracted, Solving, Solved]"

text \<open>
  Between two states the queue was only extended: the calls started and the calls waiting,
  in this order, make up the same list as before, followed by the calls submitted since.
\<close>

definition queue_extended :: "state \<Rightarrow> state \<Rightarrow> bool" where
  "queue_extended s s' =
     (\<exists>cs. starts (trace s') @ apiCallQueue s' = (starts (trace s) @ apiCallQueue s) @ cs \<and>
           submits (trace s') = submits (trace s) @ cs)"

text \<open>
  The rate limiter when no reset has interfered: at most one invocation of
  \<open>processAPIQueue\<close> is suspended, \<open>isProcessingQueue\<close> says whether one is, a waiting
  invocation has calls to serve and its timer is due \<open>RATE_LIMIT_DELAY\<close> after
  \<open>lastAPICallTime\<close>, and the trace agrees with the variables.
\<close>

definition limiter_ok :: "state \<Rightarrow> bool" where
  "limiter_ok s =
     (length (loops s) \<le> 1 \<and>
      isProcessingQueue s = (loops s \<noteq> []) \<and>
      (loops s = [] \<longrightarrow> apiCallQueue s = []) \<and>
      (\<forall>p \<in> set (loops s). \<forall>due. snd p = Waiting due \<longrightarrow>
         apiCallQueue s \<noteq> [] \<and> due = lastAPICallTime s + RATE_LIMIT_DELAY) \<and>
      (gate_after (Idle None) (trace s) = Busy) = (in_flight (loops s) \<noteq> []) \<and>
      (\<forall>tf. gate_after (Idle None) (trace s) = Idle (Some tf) \<longrightarrow> lastAPICallTime s = tf) \<and>
      floor_kept (Idle None) (trace s))"

text \<open>
  The work that remains, counted in events still to come: a call in the queue needs its
  timer, its answer and the resumption of its task; a task at its extraction await still
  has its solve call to make; an unsolved question has both calls ahead.
\<close>

fun call_work :: "call \<Rightarrow> nat" where
  "call_work c = (case stage c of Extraction \<Rightarrow> 5 | Solution x \<Rightarrow> 0)"

fun loop_work :: "loop \<Rightarrow> nat" where
  "loop_work (Waiting due) = 1"
| "loop_work (InFlight c) = 3 + call_work c"

definition unsolved_count :: "state \<Rightarrow> nat" where
  "unsolved_count s =
     length (filter (\<lambda>qn. questionStates s qn = Some Unsolved) (allQuestions s))"

definition work :: "state \<Rightarrow> nat" where
  "work s =
     sum_list (map (\<lambda>c. 4 + call_work c) (apiCallQueue s)) +
     sum_list (map (\<lambda>p. loop_work (snd p)) (loops s)) +
     sum_list (map (\<lambda>p. 1 + call_work (fst p)) (ready s)) +
     10 * unsolved_count s"

text \<open>The calls whose tasks are suspended: queued, in flight, or answered and not yet
  resumed.\<close>

definition waiting_calls :: "state \<Rightarrow> call list" where
  "waiting_calls s = apiCallQueue s @ in_flight (loops s) @ map fst (ready s)"

text \<open>Every suspended task runs for a question of the registry.\<close>

definition tasks_registered :: "state \<Rightarrow> bool" where
  "tasks_registered s = (\<forall>c \<in> set (waiting_calls s). question c \<in> set (allQuestions s))"

text \<open>
  The pipeline when no reset has interfered: every question of the buffer (but those of
  \<open>X\<close>, whose task is running) has a suspended task, every suspended task finds its data
  entry, no awaited promise is rejected, every question being extracted or solved is in
  the buffer, and every question of the registry has a state.
\<close>

definition live_ok :: "string set \<Rightarrow> state \<Rightarrow> bool" where
  "live_ok X s =
     (set (processingBuffer s) \<subseteq> question ` set (waiting_calls s) \<union> X \<and>
      (\<forall>c \<in> set (waiting_calls s). questionData s (question c) \<noteq> None) \<and>
      (\<forall>p \<in> set (ready s). \<exists>v. snd p = Inr v) \<and>
      (\<forall>qn \<in> set (allQuestions s).
         questionStates s qn = Some Extracted \<or> questionStates s qn = Some Solving \<longrightarrow>
         qn \<in> set (processingBuffer s)) \<and>
      (\<forall>qn \<in> set (allQuestions s). questionStates s qn \<noteq> None))"

definition run_inv :: "state \<Rightarrow> bool" where
  "run_inv s = (sched_inv s \<and> limiter_ok s \<and> live_ok {} s)"

text \<open>The pipeline has come to its end: the buffer is empty and every question is solved.\<close>

definition finished :: "state \<Rightarrow> bool" where
  "finished s =
     (processingBuffer s = [] \<and>
      (\<forall>qn \<in> set (allQuestions s). questionStates s qn = Some Solved))"

text \<open>The events by which the pipeline moves on.\<close>

fun is_progress :: "event \<Rightarrow> bool" where
  "is_progress (TimerFire l) = True"
| "is_progress (CallDone l r) = True"
| "is_progress (Resume t) = True"
| "is_progress e = False"

section \<open>Inputs of the concrete runs\<close>

definition labelled :: "string \<Rightarrow> image" where
  "labelled n = \<lparr>dataUrl = ''data:image/png;base64,iVBORw0KGgo='', questionNumber = Some n\<rparr>"

definition four_questions :: "image list" where
  "four_questions = [labelled ''1'', labelled ''2'', labelled ''3'', labelled ''4'']"

definition answer :: "string \<Rightarrow> response" where
  "answer content = Data (Some [Some (Str content)])"

text \<open>
  The document of the concrete runs. Its parser takes a selector that has two double
  quotes and neither a backslash nor a line break, and throws on any other. On the
  selectors used below every parser does the same: those of question numbers free of
  these characters are attribute selectors with a string value; that of the number \<open>3"\<close>
  is \<open>[data-question-number="3""]\<close>, where a string is left open after the value.
\<close>

definition browser :: "string \<Rightarrow> error option" where
  "browser sel =
     (if length (filter (\<lambda>c. c = CHR 0x22) sel) = 2 \<and>
         filter (\<lambda>c. c \<in> set [CHR 0x5C, CHR 0x0A, CHR 0x0C, CHR 0x0D]) sel = []
      then None
      else Some (Error ''SyntaxError: not a valid selector''))"

text \<open>The page with four questions and a key, and its first question served up to
  \<open>solved\<close>: each call is answered, its task resumes, and the timer of the loop fires when
  the delay has passed.\<close>

definition loaded :: state where
  "loaded = page_load browser four_questions (Some ''key'') 1700000000000"

definition first_solved :: "event list" where
  "first_solved =
     [CallDone 0 (answer ''question 1''), Resume 0, Tick 2000, TimerFire 0,
      CallDone 0 (answer ''question 2''), Resume 1, Tick 2000, TimerFire 0,
      CallDone 0 (answer ''question 3''), Resume 2, Tick 2000, TimerFire 0,
      CallDone 0 (answer ''solution 1''), Resume 0]"

definition all_solved :: "event list" where
  "all_solved =
     first_solved @
     [Tick 2000, TimerFire 0, CallDone 0 (answer ''solution 2''), Resume 1,
      Tick 2000, TimerFire 0, CallDone 0 (answer ''solution 3''), Resume 2,
      Tick 2000, TimerFire 0, CallDone 0 (answer ''question 4''), Resume 3,
      Tick 2000, TimerFire 1, CallDone 1 (answer ''solution 4''), Resume 3]"

text \<open>The same page reset while the extraction call of question 4 is in flight; the call
  is answered afterwards.\<close>

definition reset_during_fourth :: "event list" where
  "reset_during_fourth =
     first_solved @
     [Tick 2000, TimerFire 0, CallDone 0 (answer ''solution 2''), Resume 1,
      Tick 2000, TimerFire 0, CallDone 0 (answer ''solution 3''), Resume 2,
      Tick 2000, TimerFire 0, Tick 300, ResetClick, Tick 500,
      CallDone 0 (answer ''question 4'')]"

text \<open>A page with one question, reset while the extraction call of that question is in
  flight. The old call is answered, its task resumes and submits its solve call, which is
  started when the timer fires and answered in turn; the call of the task started by the
  reset is still in flight then.\<close>

definition one_question :: state where
  "one_question = page_load browser [labelled ''1''] (Some ''key'') 1700000000000"

definition reset_in_flight :: "event list" where
  "reset_in_flight = [Tick 100, ResetClick]"

definition stale_task_runs_on :: "event list" where
  "stale_task_runs_on =
     reset_in_flight @
     [Tick 100, CallDone 0 (answer ''question 1''), Resume 0, Tick 2000, TimerFire 2,
      Tick 300, CallDone 2 (answer ''solution 1''), Resume 0]"

text \<open>The page with one question whose extraction call has been answered, reset a tenth of
  a second after the answer.\<close>

definition reset_after_answer :: "event list" where
  "reset_after_answer =
     [Tick 100, CallDone 0 (answer ''question 1''), Resume 0, Tick 100, ResetClick]"

text \<open>Stored images of which two have no question number, one is numbered, and one was
  given the number \<open>No Q#\<close> by the user.\<close>

definition mixed_images :: "image list" where
  "mixed_images =
     [\<lparr>dataUrl = ''data:a'', questionNumber = None\<rparr>,
      labelled ''2'',
      \<lparr>dataUrl = ''data:c'', questionNumber = Some []\<rparr>,
      labelled ''No Q#'']"


definition serve_one :: "event list" where
  "serve_one =
     [Tick 2000, TimerFire 0, CallDone 0 (answer ''question 1''), Resume 0,
      Tick 2000, TimerFire 0, CallDone 0 (answer ''solution 1''), Resume 0]"

text \<open>
  The page with four questions in a state that no execution reaches: the promise that the
  task of question 2 awaits has been rejected.
\<close>

definition simulated_anomaly :: state where
  "simulated_anomaly =
     loaded\<lparr>apiCallQueue := [\<lparr>task = 2, question = ''3'', stage = Extraction\<rparr>],
            ready := [(\<lparr>task = 1, question = ''2'', stage = Extraction\<rparr>,
                       Inl (Error ''simulated anomaly''))]\<rparr>"

text \<open>A page with an image that has no question number and an image that was given the
  number \<open>3"\<close>.\<close>

definition unnumbered_and_quoted :: state where
  "unnumbered_and_quoted =
     page_load browser
       [\<lparr>dataUrl = ''data:a'', questionNumber = None\<rparr>, labelled (''3'' @ [CHR 0x22])]
       (Some ''key'') 1700000000000"

section \<open>The client absorbs its failures\<close>

lemma extract_fn_cases:
  "extract_fn qn key imgs resp =
     (if noKey key then Inr (Str (extract_fallback qn (Error ''Please configure your Together AI API key first'')))
      else if getQuestionImages imgs qn = []
      then Inr (Str (extract_fallback qn (Error (''No images found for question '' @ qn))))
      else case apiCallFunction resp of
             Inl e \<Rightarrow> Inr (Str (extract_fallback qn e))
           | Inr content \<Rightarrow> Inr content)"
  by (simp add: extract_fn_def extract_request_def extract_settle_def Let_def split: sum.splits)

lemma solve_cases:
  "solve qn extracted key resp =
     (if noKey key then Inr (Str (solve_fallback qn extracted (Error ''Please configure your Together AI API key first'')))
      else case apiCallFunction resp of
             Inl e \<Rightarrow> Inr (Str (solve_fallback qn extracted e))
           | Inr content \<Rightarrow> Inr content)"
  by (simp add: solve_def solve_request_def solve_settle_def split: sum.splits)

lemma sublist_mid: "ys = ps @ xs @ ss \<Longrightarrow> sublist xs ys"
  by simp

lemma sublist_extract_fallback: "sublist (message e) (extract_fallback qn e)"
  by (rule sublist_mid [where ps = "''Error extracting content for Question '' @ qn @ '': ''"])
     (simp add: extract_fallback_def)

lemma sublist_solve_fallback_message: "sublist (message e) (solve_fallback qn x e)"
  by (rule sublist_mid [where ps = "''Error solving Question '' @ qn @ '': ''"])
     (simp add: solve_fallback_def)

lemma sublist_solve_fallback_text: "sublist (to_string x) (solve_fallback qn x e)"
  by (rule sublist_mid [where ps = "''Error solving Question '' @ qn @ '': '' @ message e @ ''. '' @ [CHR 0x0A, CHR 0x0A] @
     ''Original extracted content:'' @ [CHR 0x0A]"])
     (simp add: solve_fallback_def)

lemma apiCallFunction_NotOk_message:
  "\<exists>e. apiCallFunction (NotOk st txt (BodyError em)) = Inl e \<and>
       sublist (show_nat st @ '' '' @ txt) (message e)"
proof -
  have "sublist (show_nat st @ '' '' @ txt)
          (''API call failed: '' @ (show_nat st @ '' '' @ txt) @ ''. '' @ (case em of None \<Rightarrow> [] | Some m \<Rightarrow> m))"
    by (rule sublist_appendI)
  then show ?thesis by simp
qed

text \<open>
  What \<open>extract\<close> and \<open>solve\<close> do with an error: none is thrown on, whatever the storage
  holds and whatever the request comes back with. When there is no API key, when the
  question has no image, or when \<open>apiCallFunction\<close> throws (as it does when the response is
  not a success, when a body is \<open>null\<close>, and when the payload lacks \<open>choices\<close>, a first
  choice or its \<open>message\<close>), the fallback text built from the error is returned; it
  contains the error's message, and the one of \<open>solve\<close> contains the extracted text as well.
  When \<open>apiCallFunction\<close> returns, its value is returned as it is.
\<close>

lemma thrown_errors_absorbed:
  "(\<exists>v. extract_fn qn key imgs resp = Inr v) \<and>
   (\<exists>v. solve qn extracted key resp = Inr v) \<and>
   (noKey key \<longrightarrow>
      extract_fn qn key imgs resp =
        Inr (Str (extract_fallback qn (Error ''Please configure your Together AI API key first''))) \<and>
      solve qn extracted key resp =
        Inr (Str (solve_fallback qn extracted (Error ''Please configure your Together AI API key first'')))) \<and>
   (\<not> noKey key \<and> getQuestionImages imgs qn = [] \<longrightarrow>
      extract_fn qn key imgs resp =
        Inr (Str (extract_fallback qn (Error (''No images found for question '' @ qn))))) \<and>
   (\<forall>e. \<not> noKey key \<and> getQuestionImages imgs qn \<noteq> [] \<and> apiCallFunction resp = Inl e \<longrightarrow>
      extract_fn qn key imgs resp = Inr (Str (extract_fallback qn e))) \<and>
   (\<forall>e. \<not> noKey key \<and> apiCallFunction resp = Inl e \<longrightarrow>
      solve qn extracted key resp = Inr (Str (solve_fallback qn extracted e))) \<and>
   (\<forall>v. \<not> noKey key \<and> getQuestionImages imgs qn \<noteq> [] \<and> apiCallFunction resp = Inr v \<longrightarrow>
      extract_fn qn key imgs resp = Inr v) \<and>
   (\<forall>v. \<not> noKey key \<and> apiCallFunction resp = Inr v \<longrightarrow>
      solve qn extracted key resp = Inr v)"
  by (simp add: extract_fn_cases solve_cases split: sum.splits)

lemma fallback_texts_embed:
  "sublist (message e) (extract_fallback qn e) \<and>
   sublist (message e) (solve_fallback qn extracted e) \<and>
   sublist (to_string extracted) (solve_fallback qn extracted e)"
  by (simp add: sublist_extract_fallback sublist_solve_fallback_message sublist_solve_fallback_text)

lemma malformed_payloads_thrown:
  "apiCallFunction (Data None) = Inl (Error ''Invalid response format from API'') \<and>
   apiCallFunction (Data (Some [])) = Inl (Error ''Invalid response format from API'') \<and>
   apiCallFunction (Data (Some (None # cs))) = Inl (Error ''Invalid response format from API'') \<and>
   apiCallFunction (Data (Some (Some content # cs))) = Inr content"
  by simp

text \<open>
  Claim C2. The claim fails on a payload whose first choice has a message without
  \<open>content\<close>, or with the content \<open>null\<close>. \<open>apiCallFunction\<close> tests \<open>choices\<close>, the first
  choice and its \<open>message\<close>, and returns the \<open>content\<close> untested: with a key and an image
  stored, \<open>extract\<close> returns \<open>undefined\<close>, and \<open>solve\<close> returns \<open>null\<close>, where the claim has
  a placeholder text with the message of an error; no error is thrown and none is
  reported. The payload without a \<open>message\<close>, next to it, does end in the placeholder
  text. On the page with one question the task takes the \<open>undefined\<close> for the extracted
  text and goes on to solve.
\<close>

theorem client_returns_missing_content:
  "apiCallFunction (Data (Some [Some Undefined])) = Inr Undefined \<and>
   extract_fn ''7'' (Some ''key'') [labelled ''7''] (Data (Some [Some Undefined])) = Inr Undefined \<and>
   solve ''7'' (Str ''2+2'') (Some ''key'') (Data (Some [Some Null])) = Inr Null \<and>
   extract_fn ''7'' (Some ''key'') [labelled ''7''] (Data (Some [None])) =
     Inr (Str ''Error extracting content for Question 7: Invalid response format from API. Please check your API configuration and try again.'') \<and>
   questionData (exec [CallDone 0 (Data (Some [Some Undefined])), Resume 0] one_question) ''1'' =
     Some \<lparr>extractedText = Undefined, solvedText = Null\<rparr> \<and>
   questionStates (exec [CallDone 0 (Data (Some [Some Undefined])), Resume 0] one_question) ''1'' =
     Some Solving"
  by code_simp

section \<open>What each operation leaves alone\<close>

lemma settle_frame [simp]:
  "questionStates (settle c r s) = questionStates s"
  "processingBuffer (settle c r s) = processingBuffer s"
  "allQuestions (settle c r s) = allQuestions s"
  "questionData (settle c r s) = questionData s"
  "apiKey (settle c r s) = apiKey s"
  "images (settle c r s) = images s"
  "now (settle c r s) = now s"
  "nextTask (settle c r s) = nextTask s"
  by (simp_all add: settle_def)

lemma dispatch_frame [simp]:
  "questionStates (dispatch l s) = questionStates s"
  "processingBuffer (dispatch l s) = processingBuffer s"
  "allQuestions (dispatch l s) = allQuestions s"
  "questionData (dispatch l s) = questionData s"
  "apiKey (dispatch l s) = apiKey s"
  "images (dispatch l s) = images s"
  "now (dispatch l s) = now s"
  "nextTask (dispatch l s) = nextTask s"
  by (simp_all add: dispatch_def split: list.splits)

lemma drain_frame [simp]:
  "questionStates (drain l s) = questionStates s"
  "processingBuffer (drain l s) = processingBuffer s"
  "allQuestions (drain l s) = allQuestions s"
  "questionData (drain l s) = questionData s"
  "apiKey (drain l s) = apiKey s"
  "images (drain l s) = images s"
  "now (drain l s) = now s"
  "nextTask (drain l s) = nextTask s"
  by (simp_all add: drain_def Let_def)

lemma processAPIQueue_frame [simp]:
  "questionStates (processAPIQueue s) = questionStates s"
  "processingBuffer (processAPIQueue s) = processingBuffer s"
  "allQuestions (processAPIQueue s) = allQuestions s"
  "questionData (processAPIQueue s) = questionData s"
  "apiKey (processAPIQueue s) = apiKey s"
  "images (processAPIQueue s) = images s"
  "now (processAPIQueue s) = now s"
  "nextTask (processAPIQueue s) = nextTask s"
  by (simp_all add: processAPIQueue_def)

lemma rateLimitedAPICall_frame [simp]:
  "questionStates (rateLimitedAPICall c s) = questionStates s"
  "processingBuffer (rateLimitedAPICall c s) = processingBuffer s"
  "allQuestions (rateLimitedAPICall c s) = allQuestions s"
  "questionData (rateLimitedAPICall c s) = questionData s"
  "apiKey (rateLimitedAPICall c s) = apiKey s"
  "images (rateLimitedAPICall c s) = images s"
  "now (rateLimitedAPICall c s) = now s"
  "nextTask (rateLimitedAPICall c s) = nextTask s"
  by (simp_all add: rateLimitedAPICall_def Let_def)

lemma await_extract_frame [simp]:
  "questionStates (await_extract t qn s) = questionStates s"
  "processingBuffer (await_extract t qn s) = processingBuffer s"
  "allQuestions (await_extract t qn s) = allQuestions s"
  "questionData (await_extract t qn s) = questionData s"
  "apiKey (await_extract t qn s) = apiKey s"
  "images (await_extract t qn s) = images s"
  "now (await_extract t qn s) = now s"
  "nextTask (await_extract t qn s) = nextTask s"
  by (simp_all add: await_extract_def Let_def split: sum.splits)

lemma await_solve_frame [simp]:
  "questionStates (await_solve t qn x s) = questionStates s"
  "processingBuffer (await_solve t qn x s) = processingBuffer s"
  "allQuestions (await_solve t qn x s) = allQuestions s"
  "questionData (await_solve t qn x s) = questionData s"
  "apiKey (await_solve t qn x s) = apiKey s"
  "images (await_solve t qn x s) = images s"
  "now (await_solve t qn x s) = now s"
  "nextTask (await_solve t qn x s) = nextTask s"
  by (simp_all add: await_solve_def Let_def split: sum.splits)

lemma processQuestion_begin_frame [simp]:
  "questionStates (processQuestion_begin qn s) = (questionStates s)(qn \<mapsto> Extracted)"
  "processingBuffer (processQuestion_begin qn s) = processingBuffer s"
  "allQuestions (processQuestion_begin qn s) = allQuestions s"
  "questionData (processQuestion_begin qn s) =
     (questionData s)(qn \<mapsto> \<lparr>extractedText = Null, solvedText = Null\<rparr>)"
  "apiKey (processQuestion_begin qn s) = apiKey s"
  "images (processQuestion_begin qn s) = images s"
  "now (processQuestion_begin qn s) = now s"
  "nextTask (processQuestion_begin qn s) = Suc (nextTask s)"
  by (simp_all add: processQuestion_begin_def Let_def)

lemma fillLoop_frame [simp]:
  "allQuestions (fillLoop qs a v s) = allQuestions s"
  "apiKey (fillLoop qs a v s) = apiKey s"
  "images (fillLoop qs a v s) = images s"
  "now (fillLoop qs a v s) = now s"
  by (induction qs arbitrary: a s; simp)+

lemma fillBuffer_frame [simp]:
  "allQuestions (fillBuffer s) = allQuestions s"
  "apiKey (fillBuffer s) = apiKey s"
  "images (fillBuffer s) = images s"
  "now (fillBuffer s) = now s"
  by (simp_all add: fillBuffer_def Let_def)

lemma timerFired_frame [simp]:
  "questionStates (timerFired l s) = questionStates s"
  "processingBuffer (timerFired l s) = processingBuffer s"
  "allQuestions (timerFired l s) = allQuestions s"
  "questionData (timerFired l s) = questionData s"
  "apiKey (timerFired l s) = apiKey s"
  "images (timerFired l s) = images s"
  "now (timerFired l s) = now s"
  by (simp_all add: timerFired_def split: option.splits loop.splits)

lemma callDone_frame [simp]:
  "questionStates (callDone l r s) = questionStates s"
  "processingBuffer (callDone l r s) = processingBuffer s"
  "allQuestions (callDone l r s) = allQuestions s"
  "questionData (callDone l r s) = questionData s"
  "apiKey (callDone l r s) = apiKey s"
  "images (callDone l r s) = images s"
  "now (callDone l r s) = now s"
  by (simp_all add: callDone_def split: option.splits loop.splits)

section \<open>The document and the reset button\<close>

lemma limiter_document [simp]:
  "querySelector (settle c r s) = querySelector s"
  "resetButton (settle c r s) = resetButton s"
  "querySelector (dispatch l s) = querySelector s"
  "resetButton (dispatch l s) = resetButton s"
  "querySelector (drain l s) = querySelector s"
  "resetButton (drain l s) = resetButton s"
  "querySelector (processAPIQueue s) = querySelector s"
  "resetButton (processAPIQueue s) = resetButton s"
  "querySelector (rateLimitedAPICall c s) = querySelector s"
  "resetButton (rateLimitedAPICall c s) = resetButton s"
  "querySelector (timerFired l s) = querySelector s"
  "resetButton (timerFired l s) = resetButton s"
  "querySelector (callDone l resp s) = querySelector s"
  "resetButton (callDone l resp s) = resetButton s"
  by (simp_all add: settle_def dispatch_def drain_def processAPIQueue_def rateLimitedAPICall_def
      timerFired_def callDone_def Let_def split: list.splits option.splits loop.splits)

lemma await_document [simp]:
  "querySelector (await_extract t qn s) = querySelector s"
  "resetButton (await_extract t qn s) = resetButton s"
  "querySelector (await_solve t qn x s) = querySelector s"
  "resetButton (await_solve t qn x s) = resetButton s"
  "querySelector (processQuestion_begin qn s) = querySelector s"
  "resetButton (processQuestion_begin qn s) = resetButton s"
  by (simp_all add: await_extract_def await_solve_def processQuestion_begin_def Let_def
      split: sum.splits)

lemma fillLoop_document [simp]:
  "querySelector (fillLoop qs a v s) = querySelector s"
  "resetButton (fillLoop qs a v s) = resetButton s"
  by (induction qs arbitrary: a s; simp)+

lemma fillBuffer_document [simp]:
  "querySelector (fillBuffer s) = querySelector s"
  "resetButton (fillBuffer s) = resetButton s"
  by (simp_all add: fillBuffer_def Let_def)

lemma resume_document [simp]:
  "querySelector (resume t s) = querySelector s"
  "resetButton (resume t s) = resetButton s"
  "allQuestions (resume t s) = allQuestions s"
  by (simp_all add: resume_def after_extract_def after_solve_def processQuestion_catch_def Let_def
      split: option.splits sum.splits stage.splits prod.splits)

text \<open>The \<open>forEach\<close> of \<open>initializeProcessing\<close> writes the registry only. It gets through
  when \<open>updateButtonState\<close> returns for every question, and only then.\<close>

lemma updateButtonState_registry [simp]:
  "updateButtonState (s\<lparr>questionStates := m\<rparr>) qn = updateButtonState s qn"
  by (simp add: updateButtonState_def)

lemma resetStates_writes: "\<exists>m. fst (resetStates qs s) = s\<lparr>questionStates := m\<rparr>"
proof (induction qs arbitrary: s)
  case Nil
  have "s = s\<lparr>questionStates := questionStates s\<rparr>" by simp
  then show ?case by (metis fst_conv resetStates.simps(1))
next
  case (Cons qn rest)
  let ?s1 = "s\<lparr>questionStates := (questionStates s)(qn \<mapsto> Unsolved)\<rparr>"
  show ?case
  proof (cases "updateButtonState s qn")
    case None
    obtain m where "fst (resetStates rest ?s1) = ?s1\<lparr>questionStates := m\<rparr>"
      using Cons.IH by blast
    then have "fst (resetStates (qn # rest) s) = s\<lparr>questionStates := m\<rparr>"
      using None by (simp add: Let_def)
    then show ?thesis by blast
  next
    case (Some e)
    then have "fst (resetStates (qn # rest) s) = ?s1" by (simp add: Let_def)
    then show ?thesis by blast
  qed
qed

lemma resetStates_returns:
  "(\<forall>qn \<in> set qs. updateButtonState s qn = None) \<Longrightarrow>
   resetStates qs s =
     (s\<lparr>questionStates := fold (\<lambda>qn m. m(qn \<mapsto> Unsolved)) qs (questionStates s)\<rparr>, None)"
proof (induction qs arbitrary: s)
  case Nil
  show ?case by simp
next
  case (Cons qn rest)
  let ?s1 = "s\<lparr>questionStates := (questionStates s)(qn \<mapsto> Unsolved)\<rparr>"
  let ?f = "\<lambda>qn m. m(qn \<mapsto> Unsolved)"
  have e1: "resetStates (qn # rest) s = resetStates rest ?s1"
    using Cons.prems by (simp add: Let_def)
  have e2: "resetStates rest ?s1 = (?s1\<lparr>questionStates := fold ?f rest (questionStates ?s1)\<rparr>, None)"
    by (rule Cons.IH) (use Cons.prems in simp)
  have e3: "?s1\<lparr>questionStates := fold ?f rest (questionStates ?s1)\<rparr> =
      s\<lparr>questionStates := fold ?f (qn # rest) (questionStates s)\<rparr>"
    by simp
  show ?case by (simp only: e1 e2 e3)
qed

lemma resetStates_throws:
  "\<not> (\<forall>qn \<in> set qs. updateButtonState s qn = None) \<Longrightarrow> \<exists>e. snd (resetStates qs s) = Some e"
proof (induction qs arbitrary: s)
  case Nil
  then show ?case by simp
next
  case (Cons qn rest)
  let ?s1 = "s\<lparr>questionStates := (questionStates s)(qn \<mapsto> Unsolved)\<rparr>"
  show ?case
  proof (cases "updateButtonState s qn")
    case None
    then have "\<not> (\<forall>q \<in> set rest. updateButtonState ?s1 q = None)"
      using Cons.prems by simp
    then have "\<exists>e. snd (resetStates rest ?s1) = Some e" by (rule Cons.IH)
    then show ?thesis using None by (simp add: Let_def)
  next
    case (Some e)
    then show ?thesis by (simp add: Let_def)
  qed
qed

lemma initializeProcessing_started:
  assumes "selectors_accepted s"
  shows "initializeProcessing s =
     (fillBuffer
        (s\<lparr>questionStates := fold (\<lambda>qn m. m(qn \<mapsto> Unsolved)) (allQuestions s) Map.empty,
           processingBuffer := [],
           apiCallQueue := [],
           isProcessingQueue := False,
           lastAPICallTime := 0\<rparr>), None)"
proof -
  let ?c = "s\<lparr>questionStates := Map.empty, processingBuffer := [], apiCallQueue := [],
               isProcessingQueue := False, lastAPICallTime := 0\<rparr>"
  let ?f = "\<lambda>qn m. m(qn \<mapsto> Unsolved)"
  have "\<forall>qn \<in> set (allQuestions s). updateButtonState ?c qn = None"
    using assms by (simp add: selectors_accepted_def updateButtonState_def)
  then have r: "resetStates (allQuestions s) ?c =
      (?c\<lparr>questionStates := fold ?f (allQuestions s) (questionStates ?c)\<rparr>, None)"
    by (rule resetStates_returns)
  have q: "?c\<lparr>questionStates := fold ?f (allQuestions s) (questionStates ?c)\<rparr> =
      s\<lparr>questionStates := fold ?f (allQuestions s) Map.empty, processingBuffer := [],
        apiCallQueue := [], isProcessingQueue := False, lastAPICallTime := 0\<rparr>"
    by simp
  have "initializeProcessing s =
      (case resetStates (allQuestions s) ?c of
         (s1, Some e) \<Rightarrow> (s1, Some e) | (s1, None) \<Rightarrow> (fillBuffer s1, None))"
    by (simp add: initializeProcessing_def Let_def)
  also have "\<dots> = (fillBuffer (?c\<lparr>questionStates := fold ?f (allQuestions s) (questionStates ?c)\<rparr>), None)"
    by (simp only: r prod.case option.case)
  finally show ?thesis by (simp only: q)
qed

lemma initializeProcessing_thrown:
  assumes "\<not> selectors_accepted s"
  shows "\<exists>m e. initializeProcessing s =
     (s\<lparr>questionStates := m,
        processingBuffer := [],
        apiCallQueue := [],
        isProcessingQueue := False,
        lastAPICallTime := 0\<rparr>, Some e)"
proof -
  let ?c = "s\<lparr>questionStates := Map.empty, processingBuffer := [], apiCallQueue := [],
               isProcessingQueue := False, lastAPICallTime := 0\<rparr>"
  let ?r = "resetStates (allQuestions s) ?c"
  have "\<not> (\<forall>qn \<in> set (allQuestions s). updateButtonState ?c qn = None)"
    using assms by (simp add: selectors_accepted_def updateButtonState_def)
  then obtain e where e: "snd ?r = Some e"
    using resetStates_throws by blast
  obtain m where m: "fst ?r = ?c\<lparr>questionStates := m\<rparr>"
    using resetStates_writes by blast
  have r: "?r = (?c\<lparr>questionStates := m\<rparr>, Some e)"
    using e m by (metis prod.collapse)
  have q: "?c\<lparr>questionStates := m\<rparr> =
      s\<lparr>questionStates := m, processingBuffer := [], apiCallQueue := [],
        isProcessingQueue := False, lastAPICallTime := 0\<rparr>"
    by simp
  have "initializeProcessing s =
      (case ?r of (s1, Some e) \<Rightarrow> (s1, Some e) | (s1, None) \<Rightarrow> (fillBuffer s1, None))"
    by (simp add: initializeProcessing_def Let_def)
  also have "\<dots> = (?c\<lparr>questionStates := m\<rparr>, Some e)"
    by (simp only: r prod.case option.case)
  finally have "initializeProcessing s =
      (s\<lparr>questionStates := m, processingBuffer := [], apiCallQueue := [],
         isProcessingQueue := False, lastAPICallTime := 0\<rparr>, Some e)"
    by (simp only: q)
  then show ?thesis by blast
qed

lemma resetStates_thrown_unsolved:
  "snd (resetStates qs s) = Some e \<Longrightarrow>
   \<exists>qn \<in> set qs. questionStates (fst (resetStates qs s)) qn = Some Unsolved"
proof (induction qs arbitrary: s)
  case Nil
  then show ?case by simp
next
  case (Cons qn rest)
  let ?s1 = "s\<lparr>questionStates := (questionStates s)(qn \<mapsto> Unsolved)\<rparr>"
  show ?case
  proof (cases "updateButtonState s qn")
    case None
    then have "snd (resetStates rest ?s1) = Some e"
      using Cons.prems by (simp add: Let_def)
    then have "\<exists>q \<in> set rest. questionStates (fst (resetStates rest ?s1)) q = Some Unsolved"
      by (rule Cons.IH)
    then show ?thesis using None by (simp add: Let_def)
  next
    case (Some e')
    then show ?thesis by (simp add: Let_def)
  qed
qed

lemma initializeProcessing_thrown_unsolved:
  assumes "\<not> selectors_accepted s"
  shows "\<exists>qn \<in> set (allQuestions s).
           questionStates (fst (initializeProcessing s)) qn = Some Unsolved"
proof -
  let ?c = "s\<lparr>questionStates := Map.empty, processingBuffer := [], apiCallQueue := [],
               isProcessingQueue := False, lastAPICallTime := 0\<rparr>"
  let ?r = "resetStates (allQuestions s) ?c"
  have "\<not> (\<forall>qn \<in> set (allQuestions s). updateButtonState ?c qn = None)"
    using assms by (simp add: selectors_accepted_def updateButtonState_def)
  then obtain e where e: "snd ?r = Some e"
    using resetStates_throws by blast
  then have u: "\<exists>qn \<in> set (allQuestions s). questionStates (fst ?r) qn = Some Unsolved"
    by (rule resetStates_thrown_unsolved)
  have "initializeProcessing s =
      (case ?r of (s1, Some e) \<Rightarrow> (s1, Some e) | (s1, None) \<Rightarrow> (fillBuffer s1, None))"
    by (simp add: initializeProcessing_def Let_def)
  then have "fst (initializeProcessing s) = fst ?r"
    using e by (simp add: case_prod_beta)
  then show ?thesis using u by simp
qed

lemma initializeProcessing_cases [case_names started thrown]:
  obtains
    (started) "selectors_accepted s" and "initializeProcessing s =
       (fillBuffer
          (s\<lparr>questionStates := fold (\<lambda>qn m. m(qn \<mapsto> Unsolved)) (allQuestions s) Map.empty,
             processingBuffer := [],
             apiCallQueue := [],
             isProcessingQueue := False,
             lastAPICallTime := 0\<rparr>), None)"
  | (thrown) m e where "\<not> selectors_accepted s" and "initializeProcessing s =
       (s\<lparr>questionStates := m,
          processingBuffer := [],
          apiCallQueue := [],
          isProcessingQueue := False,
          lastAPICallTime := 0\<rparr>, Some e)"
  using initializeProcessing_started [of s] initializeProcessing_thrown [of s] by blast

lemma initializeProcessing_document [simp]:
  "querySelector (fst (initializeProcessing s)) = querySelector s"
  "resetButton (fst (initializeProcessing s)) = resetButton s"
  "allQuestions (fst (initializeProcessing s)) = allQuestions s"
proof -
  have "querySelector (fst (initializeProcessing s)) = querySelector s \<and>
        resetButton (fst (initializeProcessing s)) = resetButton s \<and>
        allQuestions (fst (initializeProcessing s)) = allQuestions s"
  proof (cases "selectors_accepted s")
    case True
    then show ?thesis by (simp add: initializeProcessing_started)
  next
    case False
    then obtain m e where "initializeProcessing s =
       (s\<lparr>questionStates := m, processingBuffer := [], apiCallQueue := [],
          isProcessingQueue := False, lastAPICallTime := 0\<rparr>, Some e)"
      using initializeProcessing_thrown by blast
    then show ?thesis by simp
  qed
  then show "querySelector (fst (initializeProcessing s)) = querySelector s"
    "resetButton (fst (initializeProcessing s)) = resetButton s"
    "allQuestions (fst (initializeProcessing s)) = allQuestions s"
    by simp_all
qed

lemma step_document [simp]:
  "querySelector (step e s) = querySelector s"
  "resetButton (step e s) = resetButton s"
  "allQuestions (step e s) = allQuestions s"
  by (cases e; simp add: resetClick_def)+

lemma exec_document [simp]:
  "querySelector (exec es s) = querySelector s"
  "resetButton (exec es s) = resetButton s"
  "allQuestions (exec es s) = allQuestions s"
  by (induction es arbitrary: s; simp)+

lemma selectors_accepted_cong:
  "allQuestions s' = allQuestions s \<Longrightarrow> querySelector s' = querySelector s \<Longrightarrow>
   selectors_accepted s' = selectors_accepted s"
  by (simp add: selectors_accepted_def updateButtonState_def)

lemma selectors_accepted_step [simp]: "selectors_accepted (step e s) = selectors_accepted s"
  by (rule selectors_accepted_cong) simp_all

lemma selectors_accepted_exec [simp]: "selectors_accepted (exec es s) = selectors_accepted s"
  by (rule selectors_accepted_cong) simp_all

text \<open>The two ways a load ends.\<close>

lemma page_load_started:
  assumes "\<forall>qn \<in> set (uniqueQuestions [] imgs). qsel (selector qn) = None"
  shows "page_load qsel imgs key t =
     (if imgs = [] then (declared qsel imgs key t)\<lparr>resetButton := True\<rparr>
      else (fst (initializeProcessing
                  ((declared qsel imgs key t)\<lparr>allQuestions := uniqueQuestions [] imgs\<rparr>)))
             \<lparr>resetButton := True\<rparr>)"
    and "selectors_accepted (page_load qsel imgs key t)"
    and "resetButton (page_load qsel imgs key t)"
    and "imgs \<noteq> [] \<Longrightarrow>
         selectors_accepted ((declared qsel imgs key t)\<lparr>allQuestions := uniqueQuestions [] imgs\<rparr>)"
proof -
  let ?d = "declared qsel imgs key t"
  let ?s = "?d\<lparr>allQuestions := uniqueQuestions [] imgs\<rparr>"
  have acc: "selectors_accepted ?s"
    using assms by (simp add: selectors_accepted_def updateButtonState_def declared_def)
  then show "imgs \<noteq> [] \<Longrightarrow> selectors_accepted ?s" by simp
  have i: "images ?d = imgs" by (simp add: declared_def)
  show eq: "page_load qsel imgs key t =
     (if imgs = [] then ?d\<lparr>resetButton := True\<rparr>
      else (fst (initializeProcessing ?s))\<lparr>resetButton := True\<rparr>)"
    using initializeProcessing_started [OF acc] i
    by (simp add: page_load_def renderQuestionButtons_def)
  show "selectors_accepted (page_load qsel imgs key t)"
  proof (cases "imgs = []")
    case True
    then show ?thesis unfolding eq by (simp add: selectors_accepted_def declared_def)
  next
    case False
    have "selectors_accepted ((fst (initializeProcessing ?s))\<lparr>resetButton := True\<rparr>) =
        selectors_accepted ?s"
      by (rule selectors_accepted_cong) simp_all
    then show ?thesis unfolding eq using False acc by simp
  qed
  show "resetButton (page_load qsel imgs key t)" unfolding eq by simp
qed

lemma page_load_thrown:
  assumes "\<not> (\<forall>qn \<in> set (uniqueQuestions [] imgs). qsel (selector qn) = None)"
  shows "load_aborted (page_load qsel imgs key t)"
    and "\<not> selectors_accepted (page_load qsel imgs key t)"
    and "\<exists>qn \<in> set (allQuestions (page_load qsel imgs key t)).
           questionStates (page_load qsel imgs key t) qn = Some Unsolved"
proof -
  let ?d = "declared qsel imgs key t"
  let ?s = "?d\<lparr>allQuestions := uniqueQuestions [] imgs\<rparr>"
  have ne: "imgs \<noteq> []" using assms by auto
  have acc: "\<not> selectors_accepted ?s"
    using assms by (simp add: selectors_accepted_def updateButtonState_def declared_def)
  then obtain m e where ie: "initializeProcessing ?s =
       (?s\<lparr>questionStates := m, processingBuffer := [], apiCallQueue := [],
           isProcessingQueue := False, lastAPICallTime := 0\<rparr>, Some e)"
    using initializeProcessing_thrown by blast
  have i: "images ?d = imgs" by (simp add: declared_def)
  have eq: "page_load qsel imgs key t =
      ?s\<lparr>questionStates := m, processingBuffer := [], apiCallQueue := [],
          isProcessingQueue := False, lastAPICallTime := 0\<rparr>"
    using ie i ne by (simp add: page_load_def renderQuestionButtons_def)
  show "load_aborted (page_load qsel imgs key t)"
    unfolding eq by (simp add: load_aborted_def declared_def)
  have "selectors_accepted (page_load qsel imgs key t) = selectors_accepted ?s"
    unfolding eq by (rule selectors_accepted_cong) simp_all
  then show "\<not> selectors_accepted (page_load qsel imgs key t)" using acc by simp
  have "page_load qsel imgs key t = fst (initializeProcessing ?s)"
    unfolding eq using ie by simp
  then show "\<exists>qn \<in> set (allQuestions (page_load qsel imgs key t)).
           questionStates (page_load qsel imgs key t) qn = Some Unsolved"
    using initializeProcessing_thrown_unsolved [OF acc] by simp
qed

text \<open>On a page whose load has thrown, an event changes the clock and the storage at
  most.\<close>

lemma load_aborted_step:
  assumes "load_aborted s"
  shows "load_aborted (step e s)"
    and "questionStates (step e s) = questionStates s"
  using assms
  by (cases e; simp add: load_aborted_def timerFired_def callDone_def resume_def)+

lemma load_aborted_exec:
  "load_aborted s \<Longrightarrow> load_aborted (exec es s) \<and> questionStates (exec es s) = questionStates s"
proof (induction es arbitrary: s)
  case Nil
  then show ?case by simp
next
  case (Cons e es)
  have "load_aborted (step e s)" "questionStates (step e s) = questionStates s"
    using load_aborted_step [OF Cons.prems] by simp_all
  then show ?case using Cons.IH [of "step e s"] by simp
qed

text \<open>
  So a page is in one of two conditions for good: \<open>updateButtonState\<close> returns for every
  question of its registry, or its load has thrown. In the second no question is ever
  admitted, and one at least stays unsolved.
\<close>

lemma reachable_cases:
  "selectors_accepted (exec es (page_load qsel imgs key t)) \<or>
   load_aborted (exec es (page_load qsel imgs key t))"
proof (cases "\<forall>qn \<in> set (uniqueQuestions [] imgs). qsel (selector qn) = None")
  case True
  then show ?thesis by (simp add: page_load_started(2))
next
  case False
  then have "load_aborted (page_load qsel imgs key t)" by (rule page_load_thrown(1))
  then show ?thesis using load_aborted_exec by blast
qed

lemma aborted_load_stalls:
  assumes "\<not> (\<forall>qn \<in> set (uniqueQuestions [] imgs). qsel (selector qn) = None)"
  shows "processingBuffer (exec es (page_load qsel imgs key t)) = [] \<and>
         trace (exec es (page_load qsel imgs key t)) = [] \<and>
         (\<exists>qn \<in> set (allQuestions (exec es (page_load qsel imgs key t))).
            questionStates (exec es (page_load qsel imgs key t)) qn = Some Unsolved) \<and>
         \<not> finished (exec es (page_load qsel imgs key t))"
proof -
  let ?p = "page_load qsel imgs key t"
  have a: "load_aborted ?p" using assms by (rule page_load_thrown(1))
  then have b: "load_aborted (exec es ?p)" "questionStates (exec es ?p) = questionStates ?p"
    using load_aborted_exec by blast+
  obtain qn where q: "qn \<in> set (allQuestions ?p)" "questionStates ?p qn = Some Unsolved"
    using page_load_thrown(3) [OF assms] by blast
  then have u: "\<exists>qn \<in> set (allQuestions (exec es ?p)). questionStates (exec es ?p) qn = Some Unsolved"
    using b(2) by auto
  then obtain q' where "q' \<in> set (allQuestions (exec es ?p))"
      "questionStates (exec es ?p) q' \<noteq> Some Solved"
    by force
  then have "\<not> finished (exec es ?p)" unfolding finished_def by blast
  then show ?thesis using b(1) u by (simp add: load_aborted_def)
qed

section \<open>The buffer invariants\<close>

lemma buffer_ok_admit:
  assumes "buffer_ok s" "questionStates s qn = Some Unsolved"
    "length (processingBuffer s) < BUFFER_SIZE"
  shows "buffer_ok (processQuestion_begin qn (s\<lparr>processingBuffer := set_add (processingBuffer s) qn\<rparr>))"
    and "length (processingBuffer (processQuestion_begin qn (s\<lparr>processingBuffer := set_add (processingBuffer s) qn\<rparr>)))
           = Suc (length (processingBuffer s))"
proof -
  from assms(1,2) have "qn \<notin> set (processingBuffer s)"
    by (auto simp: buffer_ok_def)
  then have add: "set_add (processingBuffer s) qn = processingBuffer s @ [qn]"
    by (simp add: set_add_def)
  show "buffer_ok (processQuestion_begin qn (s\<lparr>processingBuffer := set_add (processingBuffer s) qn\<rparr>))"
    using assms by (auto simp: buffer_ok_def add)
  show "length (processingBuffer (processQuestion_begin qn (s\<lparr>processingBuffer := set_add (processingBuffer s) qn\<rparr>)))
           = Suc (length (processingBuffer s))"
    by (simp add: add)
qed

lemma fillLoop_buffer_ok:
  "buffer_ok s \<Longrightarrow> int (length (processingBuffer s)) + (v - int a) \<le> int BUFFER_SIZE \<Longrightarrow>
   buffer_ok (fillLoop qs a v s)"
proof (induction qs arbitrary: a s)
  case Nil
  then show ?case by simp
next
  case (Cons qn rest)
  show ?case
  proof (cases "int a \<ge> v")
    case True
    then show ?thesis using Cons.prems by simp
  next
    case False
    show ?thesis
    proof (cases "questionStates s qn = Some Unsolved")
      case True
      let ?s1 = "processQuestion_begin qn (s\<lparr>processingBuffer := set_add (processingBuffer s) qn\<rparr>)"
      have lt: "length (processingBuffer s) < BUFFER_SIZE"
        using Cons.prems(2) False by linarith
      have ok: "buffer_ok ?s1" and len: "length (processingBuffer ?s1) = Suc (length (processingBuffer s))"
        using buffer_ok_admit [OF Cons.prems(1) True lt] by blast+
      have "buffer_ok (fillLoop rest (Suc a) v ?s1)"
        by (rule Cons.IH [OF ok]) (use Cons.prems(2) len in linarith)
      then show ?thesis using False True by simp
    next
      case F2: False
      then show ?thesis using False Cons by simp
    qed
  qed
qed

lemma fillLoop_unsolved_mono:
  "questionStates (fillLoop qs a v s) q = Some Unsolved \<Longrightarrow> questionStates s q = Some Unsolved"
proof (induction qs arbitrary: a s)
  case Nil
  then show ?case by simp
next
  case (Cons qn rest)
  show ?case
  proof (cases "int a \<ge> v")
    case True
    then show ?thesis using Cons.prems by simp
  next
    case False
    show ?thesis
    proof (cases "questionStates s qn = Some Unsolved")
      case True
      let ?s1 = "processQuestion_begin qn (s\<lparr>processingBuffer := set_add (processingBuffer s) qn\<rparr>)"
      have "questionStates (fillLoop rest (Suc a) v ?s1) q = Some Unsolved"
        using Cons.prems False True by simp
      then have "questionStates ?s1 q = Some Unsolved" by (rule Cons.IH)
      then show ?thesis by (simp split: if_splits)
    next
      case F2: False
      have "questionStates (fillLoop rest a v s) q = Some Unsolved"
        using Cons.prems False F2 by simp
      then show ?thesis by (rule Cons.IH)
    qed
  qed
qed

lemma fillLoop_backfilled:
  "buffer_ok s \<Longrightarrow> int (length (processingBuffer s)) + (v - int a) = int BUFFER_SIZE \<Longrightarrow>
   int a \<le> v \<Longrightarrow>
   length (processingBuffer (fillLoop qs a v s)) = BUFFER_SIZE \<or>
   (\<forall>qn \<in> set qs. questionStates (fillLoop qs a v s) qn \<noteq> Some Unsolved)"
proof (induction qs arbitrary: a s)
  case Nil
  then show ?case by simp
next
  case (Cons qn rest)
  show ?case
  proof (cases "int a \<ge> v")
    case True
    then have "length (processingBuffer s) = BUFFER_SIZE" using Cons.prems by linarith
    then show ?thesis using True by simp
  next
    case False
    show ?thesis
    proof (cases "questionStates s qn = Some Unsolved")
      case True
      let ?s1 = "processQuestion_begin qn (s\<lparr>processingBuffer := set_add (processingBuffer s) qn\<rparr>)"
      have lt: "length (processingBuffer s) < BUFFER_SIZE"
        using Cons.prems(2) False by linarith
      have ok: "buffer_ok ?s1" and len: "length (processingBuffer ?s1) = Suc (length (processingBuffer s))"
        using buffer_ok_admit [OF Cons.prems(1) True lt] by blast+
      have eq: "fillLoop (qn # rest) a v s = fillLoop rest (Suc a) v ?s1"
        using False True by simp
      have ih: "length (processingBuffer (fillLoop rest (Suc a) v ?s1)) = BUFFER_SIZE \<or>
        (\<forall>q \<in> set rest. questionStates (fillLoop rest (Suc a) v ?s1) q \<noteq> Some Unsolved)"
        by (rule Cons.IH [OF ok]) (use Cons.prems(2) len False in linarith)+
      have "questionStates (fillLoop rest (Suc a) v ?s1) qn \<noteq> Some Unsolved"
        using fillLoop_unsolved_mono [of rest "Suc a" v ?s1 qn] by auto
      then show ?thesis using ih unfolding eq by auto
    next
      case F2: False
      have eq: "fillLoop (qn # rest) a v s = fillLoop rest a v s"
        using False F2 by simp
      have "questionStates (fillLoop rest a v s) qn \<noteq> Some Unsolved"
        using fillLoop_unsolved_mono [of rest a v s qn] F2 by auto
      then show ?thesis using Cons.IH [OF Cons.prems(1) Cons.prems(2)] False unfolding eq by auto
    qed
  qed
qed

lemma fillBuffer_buffer_ok: "buffer_ok s \<Longrightarrow> buffer_ok (fillBuffer s)"
  by (simp add: fillBuffer_def Let_def fillLoop_buffer_ok)

lemma fillBuffer_backfilled: "buffer_ok s \<Longrightarrow> backfilled (fillBuffer s)"
proof -
  assume ok: "buffer_ok s"
  show ?thesis
  proof (cases "int BUFFER_SIZE - int (length (processingBuffer s)) \<le> 0")
    case True
    then have "length (processingBuffer s) = BUFFER_SIZE"
      using ok by (simp add: buffer_ok_def)
    then show ?thesis using True by (simp add: fillBuffer_def backfilled_def)
  next
    case False
    then show ?thesis
      using fillLoop_backfilled [OF ok, of "int BUFFER_SIZE - int (length (processingBuffer s))" 0 "allQuestions s"]
      by (simp add: fillBuffer_def backfilled_def Let_def)
  qed
qed

section \<open>The buffer invariants along every execution\<close>

lemma buffer_ok_delete:
  "buffer_ok s \<Longrightarrow> buffer_ok (s\<lparr>processingBuffer := set_delete (processingBuffer s) qn\<rparr>)"
  unfolding buffer_ok_def set_delete_def
  by (auto intro: le_trans [OF length_filter_le])

lemma sched_inv_fillBuffer: "buffer_ok s \<Longrightarrow> sched_inv (fillBuffer s)"
  by (simp add: sched_inv_def fillBuffer_buffer_ok fillBuffer_backfilled)

lemma sched_inv_catch: "sched_inv s \<Longrightarrow> sched_inv (processQuestion_catch qn s)"
  unfolding processQuestion_catch_def
  by (rule sched_inv_fillBuffer, rule buffer_ok_delete) (simp add: sched_inv_def)

lemma sched_inv_after_extract:
  assumes "sched_inv s"
  shows "sched_inv (after_extract t qn x s)"
proof (cases "questionData s qn")
  case None
  then show ?thesis
    using sched_inv_catch [OF assms, of qn] by (simp add: after_extract_def)
next
  case (Some d)
  show ?thesis
  proof (cases "qn \<in> set (processingBuffer s)")
    case False
    then show ?thesis
      using assms Some
      by (auto simp: after_extract_def sched_inv_def buffer_ok_def backfilled_def Let_def)
  next
    case True
    then show ?thesis
      using assms Some
      by (auto simp: after_extract_def sched_inv_def buffer_ok_def backfilled_def Let_def)
  qed
qed

lemma sched_inv_after_solve:
  assumes "sched_inv s"
  shows "sched_inv (after_solve t qn x s)"
proof (cases "questionData s qn")
  case None
  then show ?thesis
    using sched_inv_catch [OF assms, of qn] by (simp add: after_solve_def)
next
  case (Some d)
  show ?thesis
  proof (cases "qn \<in> set (processingBuffer s)")
    case False
    then show ?thesis
      using assms Some
      by (auto simp: after_solve_def sched_inv_def buffer_ok_def backfilled_def Let_def)
  next
    case True
    let ?s2 = "s\<lparr>questionData := (questionData s)(qn \<mapsto> d\<lparr>solvedText := x\<rparr>),
                  trace := trace s @ [SetSolvedText t qn x],
                  questionStates := (questionStates s)(qn \<mapsto> Solved),
                  trace := trace s @ [SetSolvedText t qn x] @ [SetState t qn Solved],
                  processingBuffer := set_delete (processingBuffer s) qn\<rparr>"
    have "buffer_ok ?s2"
      using assms unfolding sched_inv_def buffer_ok_def set_delete_def
      by (auto intro: le_trans [OF length_filter_le])
    then have "sched_inv (fillBuffer ?s2)" by (rule sched_inv_fillBuffer)
    then show ?thesis
      using True Some by (simp add: after_solve_def Let_def)
  qed
qed

lemma sched_inv_resume: "sched_inv s \<Longrightarrow> sched_inv (resume t s)"
proof -
  assume inv: "sched_inv s"
  have r: "sched_inv (s\<lparr>ready := rest\<rparr>)" for rest
    using inv by (simp add: sched_inv_def buffer_ok_def backfilled_def)
  show ?thesis
    unfolding resume_def
    by (auto simp: Let_def r intro!: sched_inv_after_extract sched_inv_after_solve sched_inv_catch inv
        split: option.splits sum.splits stage.splits prod.splits)
qed

lemma sched_inv_initializeProcessing:
  "selectors_accepted s \<Longrightarrow> sched_inv (fst (initializeProcessing s))"
  by (simp add: initializeProcessing_started) (rule sched_inv_fillBuffer, simp add: buffer_ok_def)

lemma sched_inv_resetButton [simp]: "sched_inv (s\<lparr>resetButton := b\<rparr>) = sched_inv s"
  by (simp add: sched_inv_def buffer_ok_def backfilled_def)

lemma sched_inv_page_load:
  assumes "\<forall>qn \<in> set (uniqueQuestions [] imgs). qsel (selector qn) = None"
  shows "sched_inv (page_load qsel imgs key t)"
proof (cases "imgs = []")
  case True
  have "page_load qsel imgs key t = (declared qsel imgs key t)\<lparr>resetButton := True\<rparr>"
    using page_load_started(1) [OF assms] True by simp
  then show ?thesis
    by (simp add: sched_inv_def buffer_ok_def backfilled_def declared_def)
next
  case False
  have "page_load qsel imgs key t =
      (fst (initializeProcessing
              ((declared qsel imgs key t)\<lparr>allQuestions := uniqueQuestions [] imgs\<rparr>)))
        \<lparr>resetButton := True\<rparr>"
    using page_load_started(1) [OF assms] False by simp
  then show ?thesis
    using sched_inv_initializeProcessing [OF page_load_started(4) [OF assms False]] by simp
qed

lemma sched_inv_step: "sched_inv s \<Longrightarrow> selectors_accepted s \<Longrightarrow> sched_inv (step e s)"
proof (cases e)
  case ResetClick
  assume "selectors_accepted s"
  then have "selectors_accepted (s\<lparr>processingBuffer := [], questionStates := Map.empty,
      questionData := Map.empty, apiCallQueue := [], isProcessingQueue := False,
      lastAPICallTime := 0\<rparr>)"
    by (simp add: selectors_accepted_def updateButtonState_def)
  moreover assume "sched_inv s"
  ultimately show ?thesis
    using ResetClick by (simp add: resetClick_def sched_inv_initializeProcessing)
next
  case (Resume t)
  assume "sched_inv s"
  then show ?thesis using Resume by (simp add: sched_inv_resume)
qed (simp_all add: sched_inv_def buffer_ok_def backfilled_def)

lemma sched_inv_step_on: "sched_inv s \<Longrightarrow> e \<noteq> ResetClick \<Longrightarrow> sched_inv (step e s)"
proof (cases e)
  case (Resume t)
  assume "sched_inv s"
  then show ?thesis using Resume by (simp add: sched_inv_resume)
qed (simp_all add: sched_inv_def buffer_ok_def backfilled_def)

lemma sched_inv_exec: "sched_inv s \<Longrightarrow> selectors_accepted s \<Longrightarrow> sched_inv (exec es s)"
  by (induction es arbitrary: s) (simp_all add: sched_inv_step)

lemma sched_inv_reachable:
  assumes "\<forall>qn \<in> set (uniqueQuestions [] imgs). qsel (selector qn) = None"
  shows "sched_inv (exec es (page_load qsel imgs key t))"
  using sched_inv_page_load [OF assms] page_load_started(2) [OF assms] by (rule sched_inv_exec)

text \<open>The first of the two invariants holds on every page, also on one whose load or reset
  has thrown.\<close>

lemma buffer_ok_catch: "buffer_ok s \<Longrightarrow> buffer_ok (processQuestion_catch qn s)"
  unfolding processQuestion_catch_def
  by (rule fillBuffer_buffer_ok, rule buffer_ok_delete)

lemma buffer_ok_after_extract:
  assumes "buffer_ok s"
  shows "buffer_ok (after_extract t qn x s)"
proof (cases "questionData s qn")
  case None
  then show ?thesis
    using buffer_ok_catch [OF assms, of qn] by (simp add: after_extract_def)
next
  case (Some d)
  then show ?thesis
    using assms by (auto simp: after_extract_def buffer_ok_def Let_def)
qed

lemma buffer_ok_after_solve:
  assumes "buffer_ok s"
  shows "buffer_ok (after_solve t qn x s)"
proof (cases "questionData s qn")
  case None
  then show ?thesis
    using buffer_ok_catch [OF assms, of qn] by (simp add: after_solve_def)
next
  case (Some d)
  show ?thesis
  proof (cases "qn \<in> set (processingBuffer s)")
    case False
    then show ?thesis
      using assms Some by (auto simp: after_solve_def buffer_ok_def Let_def)
  next
    case True
    let ?s2 = "s\<lparr>questionData := (questionData s)(qn \<mapsto> d\<lparr>solvedText := x\<rparr>),
                  trace := trace s @ [SetSolvedText t qn x],
                  questionStates := (questionStates s)(qn \<mapsto> Solved),
                  trace := trace s @ [SetSolvedText t qn x] @ [SetState t qn Solved],
                  processingBuffer := set_delete (processingBuffer s) qn\<rparr>"
    have "buffer_ok ?s2"
      using assms unfolding buffer_ok_def set_delete_def
      by (auto intro: le_trans [OF length_filter_le])
    then have "buffer_ok (fillBuffer ?s2)" by (rule fillBuffer_buffer_ok)
    then show ?thesis
      using True Some by (simp add: after_solve_def Let_def)
  qed
qed

lemma buffer_ok_resume: "buffer_ok s \<Longrightarrow> buffer_ok (resume t s)"
proof -
  assume ok: "buffer_ok s"
  have r: "buffer_ok (s\<lparr>ready := rest\<rparr>)" for rest
    using ok by (simp add: buffer_ok_def)
  show ?thesis
    unfolding resume_def
    by (auto simp: Let_def r intro!: buffer_ok_after_extract buffer_ok_after_solve buffer_ok_catch ok
        split: option.splits sum.splits stage.splits prod.splits)
qed

lemma buffer_ok_initializeProcessing: "buffer_ok (fst (initializeProcessing s))"
proof (cases "selectors_accepted s")
  case True
  then show ?thesis
    by (simp add: initializeProcessing_started) (rule fillBuffer_buffer_ok, simp add: buffer_ok_def)
next
  case False
  then obtain m e where "initializeProcessing s =
     (s\<lparr>questionStates := m, processingBuffer := [], apiCallQueue := [],
        isProcessingQueue := False, lastAPICallTime := 0\<rparr>, Some e)"
    using initializeProcessing_thrown by blast
  then show ?thesis by (simp add: buffer_ok_def)
qed

lemma buffer_ok_step: "buffer_ok s \<Longrightarrow> buffer_ok (step e s)"
proof (cases e)
  case ResetClick
  assume "buffer_ok s"
  then show ?thesis
    using ResetClick by (simp add: resetClick_def buffer_ok_initializeProcessing)
next
  case (Resume t)
  assume "buffer_ok s"
  then show ?thesis using Resume by (simp add: buffer_ok_resume)
qed (simp_all add: buffer_ok_def)

lemma buffer_ok_exec: "buffer_ok s \<Longrightarrow> buffer_ok (exec es s)"
  by (induction es arbitrary: s) (simp_all add: buffer_ok_step)

lemma buffer_ok_page_load: "buffer_ok (page_load qsel imgs key t)"
proof (cases "\<forall>qn \<in> set (uniqueQuestions [] imgs). qsel (selector qn) = None")
  case True
  then show ?thesis
    using sched_inv_page_load [of imgs qsel key t] by (simp add: sched_inv_def)
next
  case False
  then have "load_aborted (page_load qsel imgs key t)" by (rule page_load_thrown)
  then show ?thesis by (simp add: load_aborted_def buffer_ok_def)
qed

lemma buffer_ok_reachable: "buffer_ok (exec es (page_load qsel imgs key t))"
  by (rule buffer_ok_exec) (rule buffer_ok_page_load)

text \<open>
  Claim C5. Whatever happens after the page has loaded (calls answered, timers fired, tasks
  resumed, resets, storage changed), and whatever the document makes of the selectors, the
  buffer never holds more than \<open>BUFFER_SIZE\<close> questions.
\<close>

theorem buffer_within_capacity:
  "length (processingBuffer (exec es (page_load qsel imgs key t))) \<le> BUFFER_SIZE"
  using buffer_ok_reachable [of es qsel imgs key t] by (simp add: buffer_ok_def)

theorem buffer_within_capacity_witness:
  "length (processingBuffer (exec first_solved loaded)) = 3 \<and> (3::nat) \<le> BUFFER_SIZE"
proof -
  have e: "length (processingBuffer (exec first_solved loaded)) = 3"
    by code_simp
  show ?thesis
    using buffer_within_capacity [of first_solved browser four_questions "Some ''key''" 1700000000000] e
    by (simp add: loaded_def)
qed

section \<open>The registry only moves forward\<close>

lemma advances_refl: "advances s s"
  by (simp add: advances_def split: option.splits)

lemma advances_trans: "advances s s' \<Longrightarrow> advances s' s'' \<Longrightarrow> advances s s''"
  unfolding advances_def
proof
  fix qn
  assume a: "\<forall>qn. case questionStates s qn of None \<Rightarrow> True
      | Some a \<Rightarrow> (case questionStates s' qn of None \<Rightarrow> False | Some b \<Rightarrow> rank a \<le> rank b)"
    and b: "\<forall>qn. case questionStates s' qn of None \<Rightarrow> True
      | Some a \<Rightarrow> (case questionStates s'' qn of None \<Rightarrow> False | Some b \<Rightarrow> rank a \<le> rank b)"
  show "case questionStates s qn of None \<Rightarrow> True
      | Some a \<Rightarrow> (case questionStates s'' qn of None \<Rightarrow> False | Some b \<Rightarrow> rank a \<le> rank b)"
    using a [rule_format, of qn] b [rule_format, of qn]
    by (auto split: option.splits)
qed

lemma advances_same: "questionStates s' = questionStates s \<Longrightarrow> advances s s'"
  by (simp add: advances_def split: option.splits)

lemma advances_upd:
  "questionStates s' = (questionStates s)(qn \<mapsto> b) \<Longrightarrow>
   (\<And>a. questionStates s qn = Some a \<Longrightarrow> rank a \<le> rank b) \<Longrightarrow> advances s s'"
  by (simp add: advances_def split: option.splits)

lemma advances_fillLoop: "advances s (fillLoop qs a v s)"
proof (induction qs arbitrary: a s)
  case Nil
  show ?case by (simp add: advances_refl)
next
  case (Cons qn rest)
  show ?case
  proof (cases "int a \<ge> v")
    case True
    then show ?thesis by (simp add: advances_refl)
  next
    case False
    show ?thesis
    proof (cases "questionStates s qn = Some Unsolved")
      case True
      let ?s1 = "processQuestion_begin qn (s\<lparr>processingBuffer := set_add (processingBuffer s) qn\<rparr>)"
      have "advances s ?s1"
        by (rule advances_upd [where qn = qn and b = Extracted]) (simp_all add: True)
      then have "advances s (fillLoop rest (Suc a) v ?s1)"
        by (rule advances_trans) (rule Cons.IH)
      then show ?thesis using False True by simp
    next
      case F2: False
      then show ?thesis using False Cons.IH by simp
    qed
  qed
qed

lemma advances_fillBuffer: "advances s (fillBuffer s)"
  by (simp add: fillBuffer_def Let_def advances_refl advances_fillLoop)

lemma advances_catch: "advances s (processQuestion_catch qn s)"
  unfolding processQuestion_catch_def
  by (rule advances_trans [OF _ advances_fillBuffer]) (simp add: advances_same)

lemma advances_after_extract:
  assumes "buffer_ok s"
  shows "advances s (after_extract t qn x s)"
proof (cases "questionData s qn")
  case None
  then show ?thesis by (simp add: after_extract_def advances_catch)
next
  case (Some d)
  show ?thesis
  proof (cases "qn \<in> set (processingBuffer s)")
    case False
    then show ?thesis using Some by (simp add: after_extract_def Let_def advances_same)
  next
    case True
    then have "questionStates s qn = Some Extracted \<or> questionStates s qn = Some Solving"
      using assms by (simp add: buffer_ok_def)
    then have "advances s (after_extract t qn x s)"
      using True Some
      by (intro advances_upd [where qn = qn and b = Solving]) (auto simp: after_extract_def Let_def)
    then show ?thesis .
  qed
qed

lemma advances_after_solve: "advances s (after_solve t qn x s)"
proof (cases "questionData s qn")
  case None
  then show ?thesis by (simp add: after_solve_def advances_catch)
next
  case (Some d)
  show ?thesis
  proof (cases "qn \<in> set (processingBuffer s)")
    case False
    then show ?thesis using Some by (simp add: after_solve_def Let_def advances_same)
  next
    case True
    let ?s2 = "s\<lparr>questionData := (questionData s)(qn \<mapsto> d\<lparr>solvedText := x\<rparr>),
                  trace := trace s @ [SetSolvedText t qn x],
                  questionStates := (questionStates s)(qn \<mapsto> Solved),
                  trace := trace s @ [SetSolvedText t qn x] @ [SetState t qn Solved],
                  processingBuffer := set_delete (processingBuffer s) qn\<rparr>"
    have le: "rank a \<le> 3" for a by (cases a) simp_all
    have "advances s ?s2"
      by (rule advances_upd [where qn = qn and b = Solved]) (simp_all add: le)
    then have "advances s (fillBuffer ?s2)"
      by (rule advances_trans) (rule advances_fillBuffer)
    then show ?thesis using True Some by (simp add: after_solve_def Let_def)
  qed
qed

lemma advances_resume: "buffer_ok s \<Longrightarrow> advances s (resume t s)"
proof -
  assume ok: "buffer_ok s"
  have r: "buffer_ok (s\<lparr>ready := rest\<rparr>)" for rest
    using ok by (simp add: buffer_ok_def)
  have c: "advances s (s\<lparr>ready := rest\<rparr>)" for rest
    by (simp add: advances_same)
  show ?thesis
    unfolding resume_def
    by (auto simp: Let_def advances_refl
        intro!: advances_trans [OF c advances_catch] advances_trans [OF c advances_after_extract]
          advances_trans [OF c advances_after_solve] r
        split: option.splits sum.splits stage.splits prod.splits)
qed

lemma advances_step: "buffer_ok s \<Longrightarrow> e \<noteq> ResetClick \<Longrightarrow> advances s (step e s)"
  by (cases e) (simp_all add: advances_same advances_resume)

lemma rank_le_cases:
  "rank a \<le> rank b \<Longrightarrow> a \<noteq> b \<Longrightarrow> subseq (states_from b) (tl (states_from a))"
  by (cases a; cases b; simp add: states_from_def)

lemma states_from_hd: "states_from a = a # tl (states_from a)"
  by (cases a; simp add: states_from_def)

lemma sorted_rank_subseq:
  "sorted (map rank (a # xs)) \<Longrightarrow> subseq (remdups_adj (a # xs)) (states_from a)"
proof (induction xs arbitrary: a)
  case Nil
  show ?case by (subst states_from_hd) simp
next
  case (Cons b ys)
  have ih: "subseq (remdups_adj (b # ys)) (states_from b)"
    using Cons.prems by (intro Cons.IH) simp
  show ?case
  proof (cases "a = b")
    case True
    then show ?thesis using ih by simp
  next
    case False
    have "rank a \<le> rank b" using Cons.prems by simp
    then have "subseq (states_from b) (tl (states_from a))"
      using False by (rule rank_le_cases)
    then have "subseq (remdups_adj (b # ys)) (tl (states_from a))"
      using ih subseq_order.trans by blast
    then have "subseq (a # remdups_adj (b # ys)) (a # tl (states_from a))"
      by simp
    then show ?thesis using False states_from_hd [of a] by simp
  qed
qed

lemma states_from_subseq: "subseq (states_from a) [Unsolved, Extracted, Solving, Solved]"
  by (cases a; simp add: states_from_def)

lemma history_sorted:
  "buffer_ok s \<Longrightarrow> ResetClick \<notin> set es \<Longrightarrow> questionStates s qn = Some a \<Longrightarrow>
   \<exists>xs. history qn es s = map Some (a # xs) \<and> sorted (map rank (a # xs))"
proof (induction es arbitrary: s a)
  case Nil
  then show ?case by simp
next
  case (Cons e es)
  have adv: "advances s (step e s)"
    using Cons.prems by (intro advances_step) auto
  then obtain b where b: "questionStates (step e s) qn = Some b" "rank a \<le> rank b"
    using Cons.prems(3) unfolding advances_def
    by (metis (no_types, lifting) option.case_eq_if option.collapse option.sel option.simps(3))
  have "buffer_ok (step e s)" using Cons.prems(1) by (rule buffer_ok_step)
  then obtain ys where ys: "history qn es (step e s) = map Some (b # ys)" "sorted (map rank (b # ys))"
    using Cons.IH [of "step e s" b] Cons.prems(2) b(1) by auto
  have "history qn (e # es) s = map Some (a # b # ys)"
    using ys(1) Cons.prems(3) by simp
  moreover have "sorted (map rank (a # b # ys))"
    using ys(2) b(2) by auto
  ultimately show ?case by blast
qed

text \<open>
  Claim C6. In every state an execution reaches, whatever the document makes of the
  selectors, no event other than a reset moves a question's registry entry back or removes
  it; and along any stretch of events without a reset, the entries a question takes,
  repeats dropped, form a subsequence of unsolved, extracted (the extracting state),
  solving, solved.
\<close>

theorem registry_moves_forward:
  assumes "s = exec es0 (page_load qsel imgs key t)" and "ResetClick \<notin> set es"
  shows "(\<forall>e. e \<noteq> ResetClick \<longrightarrow> advances s (step e s)) \<and>
         (\<forall>a. questionStates s qn = Some a \<longrightarrow>
            (\<exists>xs. history qn es s = map Some xs \<and>
                  subseq (remdups_adj xs) [Unsolved, Extracted, Solving, Solved]))"
proof (intro conjI allI impI)
  have inv: "buffer_ok s" unfolding assms(1) by (rule buffer_ok_reachable)
  show "advances s (step e s)" if "e \<noteq> ResetClick" for e
    using inv that by (rule advances_step)
  show "\<exists>xs. history qn es s = map Some xs \<and>
      subseq (remdups_adj xs) [Unsolved, Extracted, Solving, Solved]"
    if h: "questionStates s qn = Some a" for a
  proof -
    obtain xs where xs: "history qn es s = map Some (a # xs)" "sorted (map rank (a # xs))"
      using history_sorted [OF inv assms(2) h] by blast
    have "subseq (remdups_adj (a # xs)) (states_from a)"
      using xs(2) by (rule sorted_rank_subseq)
    then have "subseq (remdups_adj (a # xs)) [Unsolved, Extracted, Solving, Solved]"
      using states_from_subseq subseq_order.trans by blast
    then show ?thesis using xs(1) by blast
  qed
qed

theorem registry_moves_forward_witness:
  "ResetClick \<notin> set [CallDone 0 (answer ''question 1''), Resume 0] \<and>
   questionStates loaded ''1'' = Some Extracted \<and>
   history ''1'' [CallDone 0 (answer ''question 1''), Resume 0] loaded =
     map Some [Extracted, Extracted, Solving] \<and>
   advances loaded (step (Resume 0) loaded) \<and>
   (\<exists>xs. history ''1'' [CallDone 0 (answer ''question 1''), Resume 0] loaded = map Some xs \<and>
      subseq (remdups_adj xs) [Unsolved, Extracted, Solving, Solved])"
proof -
  have s: "loaded = exec [] (page_load browser four_questions (Some ''key'') 1700000000000)"
    by (simp add: loaded_def)
  have n: "ResetClick \<notin> set [CallDone 0 (answer ''question 1''), Resume 0]"
    by simp
  have q: "questionStates loaded ''1'' = Some Extracted"
    by code_simp
  have h: "history ''1'' [CallDone 0 (answer ''question 1''), Resume 0] loaded =
     map Some [Extracted, Extracted, Solving]"
    by code_simp
  show ?thesis
    using registry_moves_forward [OF s n, of "''1''"] n q h by blast
qed

section \<open>A failure that escapes into a task\<close>

lemma fillLoop_noop:
  "(\<forall>q \<in> set qs. questionStates s q \<noteq> Some Unsolved) \<Longrightarrow> fillLoop qs a v s = s"
  by (induction qs arbitrary: a) simp_all

lemma fillBuffer_noop: "backfilled s \<Longrightarrow> fillBuffer s = s"
  unfolding backfilled_def fillBuffer_def Let_def
  by (auto simp: fillLoop_noop)

lemma fillLoop_keeps_state:
  "questionStates s x \<noteq> Some Unsolved \<Longrightarrow> questionStates (fillLoop qs a v s) x = questionStates s x"
proof (induction qs arbitrary: a s)
  case Nil
  show ?case by simp
next
  case (Cons qn rest)
  show ?case
  proof (cases "int a \<ge> v")
    case True
    then show ?thesis by simp
  next
    case False
    show ?thesis
    proof (cases "questionStates s qn = Some Unsolved")
      case True
      let ?s1 = "processQuestion_begin qn (s\<lparr>processingBuffer := set_add (processingBuffer s) qn\<rparr>)"
      have ne: "x \<noteq> qn" using True Cons.prems by auto
      then have "questionStates ?s1 x = questionStates s x" by simp
      moreover have "questionStates (fillLoop rest (Suc a) v ?s1) x = questionStates ?s1 x"
        by (rule Cons.IH) (use ne Cons.prems in simp)
      ultimately show ?thesis using False True by simp
    next
      case F2: False
      then show ?thesis using False Cons by simp
    qed
  qed
qed

lemma fillLoop_buffer_grows_by_unsolved:
  "x \<in> set (processingBuffer (fillLoop qs a v s)) \<Longrightarrow>
   x \<in> set (processingBuffer s) \<or> questionStates s x = Some Unsolved"
proof (induction qs arbitrary: a s)
  case Nil
  then show ?case by simp
next
  case (Cons qn rest)
  show ?case
  proof (cases "int a \<ge> v")
    case True
    then show ?thesis using Cons.prems by simp
  next
    case False
    show ?thesis
    proof (cases "questionStates s qn = Some Unsolved")
      case True
      let ?s1 = "processQuestion_begin qn (s\<lparr>processingBuffer := set_add (processingBuffer s) qn\<rparr>)"
      have "x \<in> set (processingBuffer (fillLoop rest (Suc a) v ?s1))"
        using Cons.prems False True by simp
      then have "x \<in> set (processingBuffer ?s1) \<or> questionStates ?s1 x = Some Unsolved"
        by (rule Cons.IH)
      then show ?thesis using True by (auto simp: set_add_def split: if_splits)
    next
      case F2: False
      have "x \<in> set (processingBuffer (fillLoop rest a v s))"
        using Cons.prems False F2 by simp
      then show ?thesis by (rule Cons.IH)
    qed
  qed
qed

lemma fillBuffer_keeps_state:
  "questionStates s x \<noteq> Some Unsolved \<Longrightarrow> questionStates (fillBuffer s) x = questionStates s x"
  by (simp add: fillBuffer_def Let_def fillLoop_keeps_state)

lemma fillBuffer_buffer_grows_by_unsolved:
  "x \<in> set (processingBuffer (fillBuffer s)) \<Longrightarrow>
   x \<in> set (processingBuffer s) \<or> questionStates s x = Some Unsolved"
  by (auto simp: fillBuffer_def Let_def dest: fillLoop_buffer_grows_by_unsolved split: if_splits)

lemma catch_releases:
  assumes "sched_inv s"
  shows "qn \<notin> set (processingBuffer (processQuestion_catch qn s)) \<and>
         questionStates (processQuestion_catch qn s) qn = questionStates s qn"
proof (cases "qn \<in> set (processingBuffer s)")
  case True
  let ?s1 = "s\<lparr>processingBuffer := set_delete (processingBuffer s) qn\<rparr>"
  have st: "questionStates ?s1 qn \<noteq> Some Unsolved"
    using True assms by (auto simp: sched_inv_def buffer_ok_def)
  have "qn \<notin> set (processingBuffer ?s1)" by (simp add: set_delete_def)
  then have "qn \<notin> set (processingBuffer (fillBuffer ?s1))"
    using st fillBuffer_buffer_grows_by_unsolved [of qn ?s1] by blast
  moreover have "questionStates (fillBuffer ?s1) qn = questionStates s qn"
    using fillBuffer_keeps_state [OF st] by simp
  ultimately show ?thesis by (simp add: processQuestion_catch_def)
next
  case False
  then have "filter (\<lambda>y. y \<noteq> qn) (processingBuffer s) = processingBuffer s"
    by (auto simp: filter_id_conv)
  then have same: "s\<lparr>processingBuffer := set_delete (processingBuffer s) qn\<rparr> = s"
    by (simp add: set_delete_def)
  have "fillBuffer s = s"
    using assms by (simp add: sched_inv_def fillBuffer_noop)
  then show ?thesis using False by (simp add: processQuestion_catch_def same)
qed

lemma resume_escaping:
  assumes "take_ready t (ready s) = Some ((c, r), rest)"
    and "(\<exists>e. r = Inl e) \<or> questionData s (question c) = None"
  shows "resume t s = processQuestion_catch (question c) (s\<lparr>ready := rest\<rparr>)"
  using assms
  by (auto simp: resume_def Let_def after_extract_def after_solve_def split: sum.splits stage.splits)

lemma resuming_state_invariants:
  assumes "s = exec es (page_load qsel imgs key t0)"
    and "take_ready t (ready s) = Some x"
  shows "sched_inv s \<and> selectors_accepted s"
proof (cases "\<forall>qn \<in> set (uniqueQuestions [] imgs). qsel (selector qn) = None")
  case True
  then show ?thesis
    unfolding assms(1) by (simp add: sched_inv_reachable page_load_started(2))
next
  case False
  then have "load_aborted (page_load qsel imgs key t0)" by (rule page_load_thrown(1))
  then have "load_aborted s" unfolding assms(1) using load_aborted_exec by blast
  then have "ready s = []" by (simp add: load_aborted_def)
  then show ?thesis using assms(2) by simp
qed

text \<open>
  Claim C8. Take any state of a page whose initialization got through, reached by an
  execution or not, in which the buffer invariants hold: every question of the buffer is
  being extracted or solved, the buffer is within its capacity, and no slot is free while
  a question is unsolved. Every state that an execution reaches and in which a task can
  resume is such a state (lemma \<open>resuming_state_invariants\<close>). Let a task resume in it and
  a failure escape into the task: the
  promise it awaited was rejected, or the data entry of its question is gone and the write
  to it throws. Then what runs is the \<open>catch\<close> block: the question is deleted from the
  buffer and \<open>fillBuffer\<close> is called. Afterwards the question is not in the buffer, its
  registry entry is what it was, and the invariants hold again, so the slot that the
  question gave up has gone to a question that was unsolved, if there was one.
\<close>

theorem escaping_failure_releases_slot:
  assumes "sched_inv s" and "selectors_accepted s"
    and "take_ready t (ready s) = Some ((c, r), rest)"
    and "(\<exists>e. r = Inl e) \<or> questionData s (question c) = None"
  shows "resume t s =
           fillBuffer (s\<lparr>ready := rest,
                         processingBuffer := set_delete (processingBuffer s) (question c)\<rparr>) \<and>
         question c \<notin> set (processingBuffer (resume t s)) \<and>
         questionStates (resume t s) (question c) = questionStates s (question c) \<and>
         sched_inv (resume t s)"
proof -
  have inv1: "sched_inv (s\<lparr>ready := rest\<rparr>)"
    using assms(1) by (simp add: sched_inv_def buffer_ok_def backfilled_def)
  have eq: "resume t s = processQuestion_catch (question c) (s\<lparr>ready := rest\<rparr>)"
    using assms(3,4) by (rule resume_escaping)
  have "sched_inv (resume t s)"
    using assms(1) by (rule sched_inv_resume)
  then show ?thesis
    using catch_releases [OF inv1, of "question c"] unfolding eq
    by (simp add: processQuestion_catch_def)
qed

theorem escaping_failure_releases_slot_witness:
  "sched_inv simulated_anomaly \<and> selectors_accepted simulated_anomaly \<and>
   take_ready 1 (ready simulated_anomaly) =
     Some ((\<lparr>task = 1, question = ''2'', stage = Extraction\<rparr>, Inl (Error ''simulated anomaly'')), []) \<and>
   processingBuffer simulated_anomaly = [''1'', ''2'', ''3''] \<and>
   questionStates simulated_anomaly ''2'' = Some Extracted \<and>
   questionStates simulated_anomaly ''4'' = Some Unsolved \<and>
   processingBuffer (resume 1 simulated_anomaly) = [''1'', ''3'', ''4''] \<and>
   ''2'' \<notin> set (processingBuffer (resume 1 simulated_anomaly)) \<and>
   questionStates (resume 1 simulated_anomaly) ''2'' = Some Extracted \<and>
   questionStates (resume 1 simulated_anomaly) ''4'' = Some Extracted \<and>
   sched_inv (resume 1 simulated_anomaly)"
proof -
  have i: "sched_inv simulated_anomaly" by code_simp
  have a: "selectors_accepted simulated_anomaly" by code_simp
  have r: "take_ready 1 (ready simulated_anomaly) =
     Some ((\<lparr>task = 1, question = ''2'', stage = Extraction\<rparr>, Inl (Error ''simulated anomaly'')), [])"
    by code_simp
  have d: "(\<exists>e. (Inl (Error ''simulated anomaly'') :: error + jsvalue) = Inl e) \<or>
      questionData simulated_anomaly
        (question \<lparr>task = 1, question = ''2'', stage = Extraction\<rparr>) = None"
    by simp
  have b: "processingBuffer simulated_anomaly = [''1'', ''2'', ''3'']" by code_simp
  have q2: "questionStates simulated_anomaly ''2'' = Some Extracted" by code_simp
  have q4: "questionStates simulated_anomaly ''4'' = Some Unsolved" by code_simp
  have b': "processingBuffer (resume 1 simulated_anomaly) = [''1'', ''3'', ''4'']" by code_simp
  have q4': "questionStates (resume 1 simulated_anomaly) ''4'' = Some Extracted" by code_simp
  show ?thesis
    using escaping_failure_releases_slot [OF i a r d, THEN conjunct2] i a r b q2 q4 b' q4' by simp
qed

section \<open>Submission order and dispatch order\<close>

lemma submits_append [simp]: "submits (xs @ ys) = submits xs @ submits ys"
  by (induction xs rule: submits.induct) simp_all

lemma starts_append [simp]: "starts (xs @ ys) = starts xs @ starts ys"
  by (induction xs rule: starts.induct) simp_all

lemma queue_extended_refl: "queue_extended s s"
  by (simp add: queue_extended_def)

lemma queue_extended_trans:
  "queue_extended s s' \<Longrightarrow> queue_extended s' s'' \<Longrightarrow> queue_extended s s''"
  unfolding queue_extended_def by (metis append.assoc)

lemma queue_extended_same:
  "starts (trace s') = starts (trace s) \<Longrightarrow> submits (trace s') = submits (trace s) \<Longrightarrow>
   apiCallQueue s' = apiCallQueue s \<Longrightarrow> queue_extended s s'"
  by (simp add: queue_extended_def)

lemma queue_extended_settle: "queue_extended s (settle c r s)"
  by (rule queue_extended_same) (simp_all add: settle_def)

lemma queue_extended_dispatch: "queue_extended s (dispatch l s)"
  by (simp add: queue_extended_def dispatch_def split: list.splits)

lemma queue_extended_drain: "queue_extended s (drain l s)"
  using queue_extended_dispatch [of s l]
  by (simp add: drain_def Let_def queue_extended_def)

lemma queue_extended_processAPIQueue: "queue_extended s (processAPIQueue s)"
proof -
  have "queue_extended s (s\<lparr>isProcessingQueue := True, nextLoop := Suc (nextLoop s)\<rparr>)"
    by (rule queue_extended_same) simp_all
  then show ?thesis
    unfolding processAPIQueue_def
    by (auto simp: queue_extended_refl intro: queue_extended_trans queue_extended_drain)
qed

lemma queue_extended_rateLimitedAPICall: "queue_extended s (rateLimitedAPICall c s)"
proof -
  let ?s1 = "s\<lparr>apiCallQueue := apiCallQueue s @ [c], trace := trace s @ [Submit c]\<rparr>"
  have "queue_extended s ?s1" by (simp add: queue_extended_def)
  then show ?thesis
    unfolding rateLimitedAPICall_def Let_def
    by (auto intro: queue_extended_trans queue_extended_processAPIQueue)
qed

lemma queue_extended_await_extract: "queue_extended s (await_extract t qn s)"
  by (simp add: await_extract_def Let_def queue_extended_settle queue_extended_rateLimitedAPICall
      split: sum.splits)

lemma queue_extended_await_solve: "queue_extended s (await_solve t qn x s)"
  by (simp add: await_solve_def Let_def queue_extended_settle queue_extended_rateLimitedAPICall
      split: sum.splits)

lemma queue_extended_begin: "queue_extended s (processQuestion_begin qn s)"
  unfolding processQuestion_begin_def Let_def
  by (rule queue_extended_trans [OF _ queue_extended_await_extract])
     (rule queue_extended_same; simp)

lemma queue_extended_fillLoop: "queue_extended s (fillLoop qs a v s)"
proof (induction qs arbitrary: a s)
  case Nil
  show ?case by (simp add: queue_extended_refl)
next
  case (Cons qn rest)
  let ?s0 = "s\<lparr>processingBuffer := set_add (processingBuffer s) qn\<rparr>"
  have "queue_extended s ?s0" by (rule queue_extended_same) simp_all
  then have "queue_extended s (processQuestion_begin qn ?s0)"
    by (rule queue_extended_trans) (rule queue_extended_begin)
  then have "queue_extended s (fillLoop rest (Suc a) v (processQuestion_begin qn ?s0))"
    by (rule queue_extended_trans) (rule Cons.IH)
  then show ?case using Cons.IH by (simp add: queue_extended_refl)
qed

lemma queue_extended_fillBuffer: "queue_extended s (fillBuffer s)"
  by (simp add: fillBuffer_def Let_def queue_extended_refl queue_extended_fillLoop)

lemma queue_extended_catch: "queue_extended s (processQuestion_catch qn s)"
  unfolding processQuestion_catch_def
  by (rule queue_extended_trans [OF _ queue_extended_fillBuffer])
     (rule queue_extended_same; simp)

lemma queue_extended_after_extract: "queue_extended s (after_extract t qn x s)"
proof (cases "questionData s qn")
  case None
  then show ?thesis by (simp add: after_extract_def queue_extended_catch)
next
  case (Some d)
  let ?s1 = "s\<lparr>questionData := (questionData s)(qn \<mapsto> d\<lparr>extractedText := x\<rparr>)\<rparr>"
  let ?s2 = "?s1\<lparr>questionStates := (questionStates ?s1)(qn \<mapsto> Solving),
                 trace := trace ?s1 @ [SetState t qn Solving]\<rparr>"
  have 1: "queue_extended s ?s1" by (rule queue_extended_same) simp_all
  have "queue_extended s ?s2" by (rule queue_extended_same) simp_all
  then have "queue_extended s (await_solve t qn x ?s2)"
    by (rule queue_extended_trans) (rule queue_extended_await_solve)
  then show ?thesis using Some 1 by (simp add: after_extract_def Let_def)
qed

lemma queue_extended_after_solve: "queue_extended s (after_solve t qn x s)"
proof (cases "questionData s qn")
  case None
  then show ?thesis by (simp add: after_solve_def queue_extended_catch)
next
  case (Some d)
  let ?s1 = "s\<lparr>questionData := (questionData s)(qn \<mapsto> d\<lparr>solvedText := x\<rparr>),
                trace := trace s @ [SetSolvedText t qn x]\<rparr>"
  let ?s2 = "?s1\<lparr>questionStates := (questionStates ?s1)(qn \<mapsto> Solved),
                 trace := trace ?s1 @ [SetState t qn Solved],
                 processingBuffer := set_delete (processingBuffer ?s1) qn\<rparr>"
  have 1: "queue_extended s ?s1" by (rule queue_extended_same) simp_all
  have "queue_extended s ?s2" by (rule queue_extended_same) simp_all
  then have "queue_extended s (fillBuffer ?s2)"
    by (rule queue_extended_trans) (rule queue_extended_fillBuffer)
  then show ?thesis using Some 1 by (simp add: after_solve_def Let_def)
qed

lemma queue_extended_resume: "queue_extended s (resume t s)"
proof -
  have c: "queue_extended s (s\<lparr>ready := rest\<rparr>)" for rest
    by (rule queue_extended_same) simp_all
  show ?thesis
    unfolding resume_def
    by (auto simp: Let_def queue_extended_refl
        intro!: queue_extended_trans [OF c queue_extended_catch]
          queue_extended_trans [OF c queue_extended_after_extract]
          queue_extended_trans [OF c queue_extended_after_solve]
        split: option.splits sum.splits stage.splits prod.splits)
qed

lemma queue_extended_timerFired: "queue_extended s (timerFired l s)"
proof -
  have c: "queue_extended s (s\<lparr>loops := ls\<rparr>)" for ls
    by (rule queue_extended_same) simp_all
  show ?thesis
    unfolding timerFired_def
    by (auto simp: queue_extended_refl intro!: queue_extended_trans [OF c queue_extended_dispatch]
        split: option.splits loop.splits)
qed

lemma queue_extended_callDone: "queue_extended s (callDone l r s)"
proof -
  have c: "queue_extended s (s\<lparr>loops := ls, lastAPICallTime := now s,
      trace := trace s @ [Finish c (now s)]\<rparr>)" for ls c
    by (rule queue_extended_same) simp_all
  show ?thesis
    unfolding callDone_def
    by (auto simp: queue_extended_refl
        intro!: queue_extended_trans [OF c queue_extended_trans [OF queue_extended_settle queue_extended_drain]]
        split: option.splits loop.splits)
qed

lemma queue_extended_step: "e \<noteq> ResetClick \<Longrightarrow> queue_extended s (step e s)"
  by (cases e)
     (simp_all add: queue_extended_timerFired queue_extended_callDone queue_extended_resume
        queue_extended_same)

lemma fifo_exact_extended:
  "queue_extended s s' \<Longrightarrow> starts (trace s) @ apiCallQueue s = submits (trace s) \<Longrightarrow>
   starts (trace s') @ apiCallQueue s' = submits (trace s')"
  by (auto simp: queue_extended_def)

lemma fifo_subseq_extended:
  "queue_extended s s' \<Longrightarrow> subseq (starts (trace s) @ apiCallQueue s) (submits (trace s)) \<Longrightarrow>
   subseq (starts (trace s') @ apiCallQueue s') (submits (trace s'))"
  unfolding queue_extended_def
  by (metis append.assoc subseq_append_iff subseq_order.order_refl subseq_append')

lemma subseq_drop_queue: "subseq (xs @ q) ys \<Longrightarrow> subseq xs ys"
  by (metis append_Nil2 subseq_append_iff subseq_order.order_refl subseq_order.trans list_emb_append2 list_emb_Nil)

lemma fifo_initializeProcessing:
  assumes "subseq (starts (trace s) @ q) (submits (trace s))"
  shows "subseq (starts (trace (fst (initializeProcessing s))) @
                 apiCallQueue (fst (initializeProcessing s)))
           (submits (trace (fst (initializeProcessing s))))"
proof (cases s rule: initializeProcessing_cases)
  case started
  let ?s0 = "s\<lparr>questionStates := fold (\<lambda>qn m. m(qn \<mapsto> Unsolved)) (allQuestions s) Map.empty,
          processingBuffer := [],
          apiCallQueue := [],
          isProcessingQueue := False,
          lastAPICallTime := 0\<rparr>"
  have "subseq (starts (trace ?s0) @ apiCallQueue ?s0) (submits (trace ?s0))"
    using subseq_drop_queue [OF assms] by simp
  then have "subseq (starts (trace (fillBuffer ?s0)) @ apiCallQueue (fillBuffer ?s0))
      (submits (trace (fillBuffer ?s0)))"
    by (rule fifo_subseq_extended [OF queue_extended_fillBuffer])
  then show ?thesis by (simp only: started(2) fst_conv)
next
  case (thrown m e)
  then show ?thesis using subseq_drop_queue [OF assms] by simp
qed

lemma fifo_exact_initializeProcessing:
  assumes "starts (trace s) = submits (trace s)"
  shows "starts (trace (fst (initializeProcessing s))) @
         apiCallQueue (fst (initializeProcessing s)) =
           submits (trace (fst (initializeProcessing s)))"
proof (cases s rule: initializeProcessing_cases)
  case started
  let ?s0 = "s\<lparr>questionStates := fold (\<lambda>qn m. m(qn \<mapsto> Unsolved)) (allQuestions s) Map.empty,
          processingBuffer := [],
          apiCallQueue := [],
          isProcessingQueue := False,
          lastAPICallTime := 0\<rparr>"
  have "starts (trace ?s0) @ apiCallQueue ?s0 = submits (trace ?s0)"
    using assms by simp
  then have "starts (trace (fillBuffer ?s0)) @ apiCallQueue (fillBuffer ?s0) =
      submits (trace (fillBuffer ?s0))"
    by (rule fifo_exact_extended [OF queue_extended_fillBuffer])
  then show ?thesis by (simp only: started(2) fst_conv)
next
  case (thrown m e)
  then show ?thesis using assms by simp
qed

lemma fifo_exact_page_load:
  "starts (trace (page_load qsel imgs key t)) @ apiCallQueue (page_load qsel imgs key t) =
     submits (trace (page_load qsel imgs key t))"
proof (cases "imgs = []")
  case True
  then show ?thesis by (simp add: page_load_def renderQuestionButtons_def declared_def)
next
  case False
  let ?s = "(declared qsel imgs key t)\<lparr>allQuestions := uniqueQuestions [] imgs\<rparr>"
  have "starts (trace ?s) = submits (trace ?s)" by (simp add: declared_def)
  then have "starts (trace (fst (initializeProcessing ?s))) @
         apiCallQueue (fst (initializeProcessing ?s)) =
           submits (trace (fst (initializeProcessing ?s)))"
    by (rule fifo_exact_initializeProcessing)
  moreover have "images (declared qsel imgs key t) = imgs" by (simp add: declared_def)
  ultimately show ?thesis
    using False
    by (auto simp: page_load_def renderQuestionButtons_def split: prod.splits option.splits)
qed

lemma fifo_subseq_step:
  "subseq (starts (trace s) @ apiCallQueue s) (submits (trace s)) \<Longrightarrow>
   subseq (starts (trace (step e s)) @ apiCallQueue (step e s)) (submits (trace (step e s)))"
proof (cases "e = ResetClick")
  case True
  assume "subseq (starts (trace s) @ apiCallQueue s) (submits (trace s))"
  then have "subseq (starts (trace (resetClick s)) @ apiCallQueue (resetClick s))
      (submits (trace (resetClick s)))"
    unfolding resetClick_def by (intro fifo_initializeProcessing [where q = "apiCallQueue s"]) simp
  then show ?thesis
    using True \<open>subseq (starts (trace s) @ apiCallQueue s) (submits (trace s))\<close> by simp
next
  case False
  assume "subseq (starts (trace s) @ apiCallQueue s) (submits (trace s))"
  then show ?thesis
    by (rule fifo_subseq_extended [OF queue_extended_step [OF False]])
qed

lemma fifo_subseq_exec:
  "subseq (starts (trace s) @ apiCallQueue s) (submits (trace s)) \<Longrightarrow>
   subseq (starts (trace (exec es s)) @ apiCallQueue (exec es s)) (submits (trace (exec es s)))"
  by (induction es arbitrary: s) (simp_all add: fifo_subseq_step)

lemma fifo_exact_exec:
  "ResetClick \<notin> set es \<Longrightarrow> starts (trace s) @ apiCallQueue s = submits (trace s) \<Longrightarrow>
   starts (trace (exec es s)) @ apiCallQueue (exec es s) = submits (trace (exec es s))"
proof (induction es arbitrary: s)
  case Nil
  then show ?case by simp
next
  case (Cons e es)
  have "starts (trace (step e s)) @ apiCallQueue (step e s) = submits (trace (step e s))"
    by (rule fifo_exact_extended [OF queue_extended_step Cons.prems(2)]) (use Cons.prems(1) in auto)
  then show ?case using Cons.IH Cons.prems(1) by simp
qed

text \<open>
  Claim C4. In every state an execution reaches, whatever the document makes of the
  selectors, the calls started so far followed by the calls still waiting in the queue
  are, in this order, a subsequence of the calls submitted so far: no call is started
  before one submitted earlier that is still to be started. When no reset has emptied the
  queue the two lists are equal, so the calls are started exactly in the order of their
  submission, whatever task, question or stage submitted them.
\<close>

theorem dispatch_in_submission_order:
  assumes "s = exec es (page_load qsel imgs key t)"
  shows "subseq (starts (trace s) @ apiCallQueue s) (submits (trace s)) \<and>
         (ResetClick \<notin> set es \<longrightarrow> starts (trace s) @ apiCallQueue s = submits (trace s))"
proof
  show "subseq (starts (trace s) @ apiCallQueue s) (submits (trace s))"
    unfolding assms by (rule fifo_subseq_exec) (simp add: fifo_exact_page_load)
  show "ResetClick \<notin> set es \<longrightarrow> starts (trace s) @ apiCallQueue s = submits (trace s)"
    unfolding assms using fifo_exact_exec [OF _ fifo_exact_page_load] by blast
qed

theorem dispatch_in_submission_order_witness:
  "ResetClick \<notin> set all_solved \<and>
   apiCallQueue (exec all_solved loaded) = [] \<and>
   starts (trace (exec all_solved loaded)) =
     [\<lparr>task = 0, question = ''1'', stage = Extraction\<rparr>,
      \<lparr>task = 1, question = ''2'', stage = Extraction\<rparr>,
      \<lparr>task = 2, question = ''3'', stage = Extraction\<rparr>,
      \<lparr>task = 0, question = ''1'', stage = Solution (Str ''question 1'')\<rparr>,
      \<lparr>task = 1, question = ''2'', stage = Solution (Str ''question 2'')\<rparr>,
      \<lparr>task = 2, question = ''3'', stage = Solution (Str ''question 3'')\<rparr>,
      \<lparr>task = 3, question = ''4'', stage = Extraction\<rparr>,
      \<lparr>task = 3, question = ''4'', stage = Solution (Str ''question 4'')\<rparr>] \<and>
   submits (trace (exec all_solved loaded)) = starts (trace (exec all_solved loaded))"
proof -
  have s: "exec all_solved loaded =
      exec all_solved (page_load browser four_questions (Some ''key'') 1700000000000)"
    by (simp add: loaded_def)
  have n: "ResetClick \<notin> set all_solved" by code_simp
  have q: "apiCallQueue (exec all_solved loaded) = []" by code_simp
  have st: "starts (trace (exec all_solved loaded)) =
     [\<lparr>task = 0, question = ''1'', stage = Extraction\<rparr>,
      \<lparr>task = 1, question = ''2'', stage = Extraction\<rparr>,
      \<lparr>task = 2, question = ''3'', stage = Extraction\<rparr>,
      \<lparr>task = 0, question = ''1'', stage = Solution (Str ''question 1'')\<rparr>,
      \<lparr>task = 1, question = ''2'', stage = Solution (Str ''question 2'')\<rparr>,
      \<lparr>task = 2, question = ''3'', stage = Solution (Str ''question 3'')\<rparr>,
      \<lparr>task = 3, question = ''4'', stage = Extraction\<rparr>,
      \<lparr>task = 3, question = ''4'', stage = Solution (Str ''question 4'')\<rparr>]"
    by code_simp
  have "starts (trace (exec all_solved loaded)) @ apiCallQueue (exec all_solved loaded) =
      submits (trace (exec all_solved loaded))"
    using dispatch_in_submission_order [OF s] n by blast
  then show ?thesis using n q st by simp
qed

section \<open>The rate floor\<close>

lemma gate_after_append [simp]: "gate_after g (xs @ ys) = gate_after (gate_after g xs) ys"
  by (induction g xs rule: gate_after.induct) simp_all

lemma floor_kept_append [simp]:
  "floor_kept g (xs @ ys) = (floor_kept g xs \<and> floor_kept (gate_after g xs) ys)"
  by (induction g xs rule: floor_kept.induct) (auto split: gate.splits option.splits)

lemma limiter_ok_frame:
  "loops s' = loops s \<Longrightarrow> isProcessingQueue s' = isProcessingQueue s \<Longrightarrow>
   apiCallQueue s' = apiCallQueue s \<Longrightarrow> lastAPICallTime s' = lastAPICallTime s \<Longrightarrow>
   gate_after (Idle None) (trace s') = gate_after (Idle None) (trace s) \<Longrightarrow>
   floor_kept (Idle None) (trace s') = floor_kept (Idle None) (trace s) \<Longrightarrow>
   limiter_ok s' = limiter_ok s"
  by (simp add: limiter_ok_def)

lemma short_list: "length xs \<le> Suc 0 \<Longrightarrow> xs = [] \<or> (\<exists>x. xs = [x])"
  by (cases xs) auto

lemma limiter_ok_drain:
  assumes "loops s = []" "isProcessingQueue s" "gate_after (Idle None) (trace s) = Idle lf"
    "\<forall>tf. lf = Some tf \<longrightarrow> lastAPICallTime s = tf"
    "floor_kept (Idle None) (trace s)"
  shows "limiter_ok (drain l s)"
proof (cases "apiCallQueue s")
  case Nil
  then show ?thesis using assms
    by (simp add: drain_def limiter_ok_def)
next
  case (Cons c rest)
  show ?thesis
  proof (cases "now s - lastAPICallTime s < RATE_LIMIT_DELAY")
    case True
    then show ?thesis using assms Cons
      by (simp add: drain_def limiter_ok_def Let_def)
  next
    case False
    then show ?thesis using assms Cons
      by (cases lf) (auto simp: drain_def dispatch_def limiter_ok_def Let_def)
  qed
qed

lemma limiter_ok_settle: "limiter_ok s \<Longrightarrow> limiter_ok (settle c r s)"
  by (simp add: limiter_ok_def settle_def)

lemma limiter_ok_rateLimitedAPICall:
  assumes "limiter_ok s"
  shows "limiter_ok (rateLimitedAPICall c s)"
proof (cases "isProcessingQueue s")
  case True
  then show ?thesis using assms
    by (auto simp: rateLimitedAPICall_def limiter_ok_def Let_def)
next
  case False
  let ?s2 = "s\<lparr>apiCallQueue := apiCallQueue s @ [c], trace := trace s @ [Submit c],
                isProcessingQueue := True, nextLoop := Suc (nextLoop s)\<rparr>"
  have l: "loops s = []"
    using assms False by (simp add: limiter_ok_def)
  obtain lf where g: "gate_after (Idle None) (trace s) = Idle lf"
    using assms l by (cases "gate_after (Idle None) (trace s)") (auto simp: limiter_ok_def)
  have "limiter_ok (drain (nextLoop s) ?s2)"
    by (rule limiter_ok_drain [where lf = lf])
       (use assms l g in \<open>auto simp: limiter_ok_def\<close>)
  then show ?thesis using False
    by (simp add: rateLimitedAPICall_def processAPIQueue_def Let_def)
qed

lemma limiter_ok_timerFired:
  assumes "limiter_ok s"
  shows "limiter_ok (timerFired l s)"
proof (cases "\<exists>due. map_of (loops s) l = Some (Waiting due) \<and> due \<le> now s")
  case False
  then show ?thesis using assms
    by (auto simp: timerFired_def split: option.splits loop.splits)
next
  case True
  then obtain due where d: "map_of (loops s) l = Some (Waiting due)" "due \<le> now s" by blast
  have "length (loops s) \<le> Suc 0" using assms by (simp add: limiter_ok_def)
  then have ls: "loops s = [(l, Waiting due)]"
    using d(1) by (auto dest!: short_list split: if_splits)
  obtain c rest where q: "apiCallQueue s = c # rest"
    using assms ls by (cases "apiCallQueue s") (auto simp: limiter_ok_def)
  obtain lf where g: "gate_after (Idle None) (trace s) = Idle lf"
    using assms ls by (cases "gate_after (Idle None) (trace s)") (auto simp: limiter_ok_def)
  show ?thesis
    using assms d ls q g
    by (cases lf) (auto simp: timerFired_def dispatch_def remove_loop_def limiter_ok_def)
qed

lemma limiter_ok_callDone:
  assumes "limiter_ok s"
  shows "limiter_ok (callDone l r s)"
proof (cases "\<exists>c. map_of (loops s) l = Some (InFlight c)")
  case False
  then show ?thesis using assms
    by (auto simp: callDone_def split: option.splits loop.splits)
next
  case True
  then obtain c where d: "map_of (loops s) l = Some (InFlight c)" by blast
  have "length (loops s) \<le> Suc 0" using assms by (simp add: limiter_ok_def)
  then have ls: "loops s = [(l, InFlight c)]"
    using d(1) by (auto dest!: short_list split: if_splits)
  let ?s1 = "settle c (apiCallFunction r)
               (s\<lparr>loops := remove_loop l (loops s), lastAPICallTime := now s,
                  trace := trace s @ [Finish c (now s)]\<rparr>)"
  have "limiter_ok (drain l ?s1)"
    by (rule limiter_ok_drain [where lf = "Some (now s)"])
       (use assms ls in \<open>auto simp: limiter_ok_def settle_def remove_loop_def\<close>)
  then show ?thesis using d by (simp add: callDone_def)
qed

lemma limiter_ok_await_extract: "limiter_ok s \<Longrightarrow> limiter_ok (await_extract t qn s)"
  by (simp add: await_extract_def Let_def limiter_ok_settle limiter_ok_rateLimitedAPICall
      split: sum.splits)

lemma limiter_ok_await_solve: "limiter_ok s \<Longrightarrow> limiter_ok (await_solve t qn x s)"
  by (simp add: await_solve_def Let_def limiter_ok_settle limiter_ok_rateLimitedAPICall
      split: sum.splits)

lemma limiter_ok_begin: "limiter_ok s \<Longrightarrow> limiter_ok (processQuestion_begin qn s)"
  unfolding processQuestion_begin_def Let_def
  by (rule limiter_ok_await_extract) (simp add: limiter_ok_def)

lemma limiter_ok_fillLoop: "limiter_ok s \<Longrightarrow> limiter_ok (fillLoop qs a v s)"
proof (induction qs arbitrary: a s)
  case Nil
  then show ?case by simp
next
  case (Cons qn rest)
  have "limiter_ok (s\<lparr>processingBuffer := set_add (processingBuffer s) qn\<rparr>)"
    using Cons.prems by (simp add: limiter_ok_def)
  then have "limiter_ok (processQuestion_begin qn (s\<lparr>processingBuffer := set_add (processingBuffer s) qn\<rparr>))"
    by (rule limiter_ok_begin)
  then show ?case using Cons by simp
qed

lemma limiter_ok_fillBuffer: "limiter_ok s \<Longrightarrow> limiter_ok (fillBuffer s)"
  by (simp add: fillBuffer_def Let_def limiter_ok_fillLoop)

lemma limiter_ok_catch: "limiter_ok s \<Longrightarrow> limiter_ok (processQuestion_catch qn s)"
  unfolding processQuestion_catch_def
  by (rule limiter_ok_fillBuffer) (simp add: limiter_ok_def)

lemma limiter_ok_after_extract: "limiter_ok s \<Longrightarrow> limiter_ok (after_extract t qn x s)"
proof (cases "questionData s qn")
  case None
  assume "limiter_ok s"
  then show ?thesis using None by (simp add: after_extract_def limiter_ok_catch)
next
  case (Some d)
  assume ok: "limiter_ok s"
  let ?s1 = "s\<lparr>questionData := (questionData s)(qn \<mapsto> d\<lparr>extractedText := x\<rparr>)\<rparr>"
  let ?s2 = "?s1\<lparr>questionStates := (questionStates ?s1)(qn \<mapsto> Solving),
                 trace := trace ?s1 @ [SetState t qn Solving]\<rparr>"
  have 1: "limiter_ok ?s1" using ok by (simp add: limiter_ok_def)
  have "limiter_ok ?s2" using ok by (simp add: limiter_ok_def)
  then have "limiter_ok (await_solve t qn x ?s2)" by (rule limiter_ok_await_solve)
  then show ?thesis using Some 1 by (simp add: after_extract_def Let_def)
qed

lemma limiter_ok_after_solve: "limiter_ok s \<Longrightarrow> limiter_ok (after_solve t qn x s)"
proof (cases "questionData s qn")
  case None
  assume "limiter_ok s"
  then show ?thesis using None by (simp add: after_solve_def limiter_ok_catch)
next
  case (Some d)
  assume ok: "limiter_ok s"
  let ?s1 = "s\<lparr>questionData := (questionData s)(qn \<mapsto> d\<lparr>solvedText := x\<rparr>),
                trace := trace s @ [SetSolvedText t qn x]\<rparr>"
  let ?s2 = "?s1\<lparr>questionStates := (questionStates ?s1)(qn \<mapsto> Solved),
                 trace := trace ?s1 @ [SetState t qn Solved],
                 processingBuffer := set_delete (processingBuffer ?s1) qn\<rparr>"
  have 1: "limiter_ok ?s1" using ok by (simp add: limiter_ok_def)
  have "limiter_ok ?s2" using ok by (simp add: limiter_ok_def)
  then have "limiter_ok (fillBuffer ?s2)" by (rule limiter_ok_fillBuffer)
  then show ?thesis using Some 1 by (simp add: after_solve_def Let_def)
qed

lemma limiter_ok_resume: "limiter_ok s \<Longrightarrow> limiter_ok (resume t s)"
proof -
  assume ok: "limiter_ok s"
  have c: "limiter_ok (s\<lparr>ready := rest\<rparr>)" for rest
    using ok by (simp add: limiter_ok_def)
  show ?thesis
    unfolding resume_def
    by (auto simp: Let_def ok
        intro!: limiter_ok_catch limiter_ok_after_extract limiter_ok_after_solve c
        split: option.splits sum.splits stage.splits prod.splits)
qed

lemma limiter_ok_step: "limiter_ok s \<Longrightarrow> e \<noteq> ResetClick \<Longrightarrow> limiter_ok (step e s)"
proof (cases e)
  case (Tick d)
  assume "limiter_ok s"
  then show ?thesis using Tick by (simp add: limiter_ok_def)
next
  case (StoreKey k)
  assume "limiter_ok s"
  then show ?thesis using StoreKey by (simp add: limiter_ok_def)
next
  case (StoreImages i)
  assume "limiter_ok s"
  then show ?thesis using StoreImages by (simp add: limiter_ok_def)
qed (simp_all add: limiter_ok_timerFired limiter_ok_callDone limiter_ok_resume)

lemma limiter_ok_exec: "limiter_ok s \<Longrightarrow> ResetClick \<notin> set es \<Longrightarrow> limiter_ok (exec es s)"
proof (induction es arbitrary: s)
  case Nil
  then show ?case by simp
next
  case (Cons e es)
  have "limiter_ok (step e s)"
    by (rule limiter_ok_step [OF Cons.prems(1)]) (use Cons.prems(2) in auto)
  then show ?case using Cons.IH Cons.prems(2) by simp
qed

lemma limiter_ok_resetButton [simp]: "limiter_ok (s\<lparr>resetButton := b\<rparr>) = limiter_ok s"
  by (simp add: limiter_ok_def)

lemma limiter_ok_initializeProcessing:
  assumes "loops s = []" "trace s = []"
  shows "limiter_ok (fst (initializeProcessing s))"
proof (cases s rule: initializeProcessing_cases)
  case started
  show ?thesis
    by (simp only: started(2) fst_conv, rule limiter_ok_fillBuffer)
       (simp add: limiter_ok_def assms)
next
  case (thrown m e)
  then show ?thesis by (simp add: limiter_ok_def assms)
qed

lemma limiter_ok_page_load: "limiter_ok (page_load qsel imgs key t)"
proof (cases "imgs = []")
  case True
  then show ?thesis
    by (simp add: page_load_def renderQuestionButtons_def limiter_ok_def declared_def)
next
  case False
  let ?s = "(declared qsel imgs key t)\<lparr>allQuestions := uniqueQuestions [] imgs\<rparr>"
  have "limiter_ok (fst (initializeProcessing ?s))"
    by (rule limiter_ok_initializeProcessing) (simp_all add: declared_def)
  moreover have "images (declared qsel imgs key t) = imgs" by (simp add: declared_def)
  ultimately show ?thesis
    using False
    by (auto simp: page_load_def renderQuestionButtons_def split: prod.splits option.splits)
qed

lemma in_flight_length: "length (in_flight ls) \<le> length ls"
  by (induction ls rule: in_flight.induct) simp_all

text \<open>
  Claim C3, for executions without a reset. In every state such an execution reaches,
  whatever the document makes of the selectors, the trace keeps the rate floor: a call
  starts only when none is in flight, and at least \<open>RATE_LIMIT_DELAY\<close> after the
  completion of the call before it. At most one call is in
  flight; \<open>lastAPICallTime\<close> is the time of the latest completion; and the timer of a waiting
  loop is due exactly \<open>RATE_LIMIT_DELAY\<close> after \<open>lastAPICallTime\<close>, so the wait is measured
  from the completion and is neither shorter nor longer than the floor.
\<close>

theorem rate_floor_without_reset:
  assumes "s = exec es (page_load qsel imgs key t)" and "ResetClick \<notin> set es"
  shows "floor_kept (Idle None) (trace s) \<and>
         length (in_flight (loops s)) \<le> 1 \<and>
         (\<forall>tf. gate_after (Idle None) (trace s) = Idle (Some tf) \<longrightarrow> lastAPICallTime s = tf) \<and>
         (\<forall>l due. map_of (loops s) l = Some (Waiting due) \<longrightarrow>
            due = lastAPICallTime s + RATE_LIMIT_DELAY)"
proof -
  have ok: "limiter_ok s"
    unfolding assms(1) using limiter_ok_page_load assms(2) by (rule limiter_ok_exec)
  have "length (in_flight (loops s)) \<le> 1"
    using ok in_flight_length [of "loops s"] by (simp add: limiter_ok_def)
  moreover have "due = lastAPICallTime s + RATE_LIMIT_DELAY"
    if "map_of (loops s) l = Some (Waiting due)" for l due
    using ok map_of_SomeD [OF that] by (fastforce simp: limiter_ok_def)
  ultimately show ?thesis using ok by (simp add: limiter_ok_def)
qed

theorem rate_floor_without_reset_witness:
  "ResetClick \<notin> set first_solved \<and>
   map_of (loops (exec first_solved loaded)) 0 = Some (Waiting 1700000008000) \<and>
   gate_after (Idle None) (trace (exec first_solved loaded)) = Idle (Some 1700000006000) \<and>
   lastAPICallTime (exec first_solved loaded) = 1700000006000 \<and>
   floor_kept (Idle None) (trace (exec first_solved loaded)) \<and>
   (1700000008000 :: int) = lastAPICallTime (exec first_solved loaded) + RATE_LIMIT_DELAY"
proof -
  have s: "exec first_solved loaded =
      exec first_solved (page_load browser four_questions (Some ''key'') 1700000000000)"
    by (simp add: loaded_def)
  have n: "ResetClick \<notin> set first_solved" by code_simp
  have w: "map_of (loops (exec first_solved loaded)) 0 = Some (Waiting 1700000008000)"
    by code_simp
  have g: "gate_after (Idle None) (trace (exec first_solved loaded)) = Idle (Some 1700000006000)"
    by code_simp
  show ?thesis
    using rate_floor_without_reset [OF s n] n w g by blast
qed

text \<open>
  Claim C3 as stated, for every execution, fails: a reset sets \<open>lastAPICallTime\<close> to 0, and
  the call submitted by the reset starts at once. Here the extraction call of the only
  question completes at 1700000000100, the page is reset, and the next call starts at
  1700000000200.
\<close>

theorem rate_floor_reset_counterexample:
  "trace (exec reset_after_answer one_question) =
     [SetState 0 ''1'' Extracted,
      Submit \<lparr>task = 0, question = ''1'', stage = Extraction\<rparr>,
      Start \<lparr>task = 0, question = ''1'', stage = Extraction\<rparr> 1700000000000,
      Finish \<lparr>task = 0, question = ''1'', stage = Extraction\<rparr> 1700000000100,
      SetState 0 ''1'' Solving,
      Submit \<lparr>task = 0, question = ''1'', stage = Solution (Str ''question 1'')\<rparr>,
      SetState 1 ''1'' Extracted,
      Submit \<lparr>task = 1, question = ''1'', stage = Extraction\<rparr>,
      Start \<lparr>task = 1, question = ''1'', stage = Extraction\<rparr> 1700000000200] \<and>
   \<not> floor_kept (Idle None) (trace (exec reset_after_answer one_question))"
  by code_simp

section \<open>Resets while calls are in flight\<close>

text \<open>
  Claim C9 fails on the code. The page has one question and its extraction call is in
  flight, so one invocation of \<open>processAPIQueue\<close> is suspended. The reset sets
  \<open>isProcessingQueue\<close> to false although that invocation has not returned, and the
  submission made by the reset starts a second one: two are suspended, each with its own
  call in flight.
\<close>

theorem reset_starts_second_drain_loop:
  "loops (exec [Tick 100] one_question) =
     [(0, InFlight \<lparr>task = 0, question = ''1'', stage = Extraction\<rparr>)] \<and>
   loops (exec reset_in_flight one_question) =
     [(0, InFlight \<lparr>task = 0, question = ''1'', stage = Extraction\<rparr>),
      (1, InFlight \<lparr>task = 1, question = ''1'', stage = Extraction\<rparr>)] \<and>
   length (loops (exec reset_in_flight one_question)) = 2"
  by code_simp

text \<open>
  Claim C1 fails on the code. Task 0 is suspended at its extraction await when the reset
  empties the buffer; the reset then admits the same question again, under task 1. When
  task 0 resumes it finds its question in the buffer, goes on to solve, and in the end
  writes \<open>solvedText\<close> and the state \<open>solved\<close>, while the extraction call of task 1 is still
  in flight.
\<close>

theorem stale_task_sets_solved:
  "in_flight (loops (exec [Tick 100] one_question)) =
     [\<lparr>task = 0, question = ''1'', stage = Extraction\<rparr>] \<and>
   processingBuffer (exec reset_in_flight one_question) = [''1''] \<and>
   in_flight (loops (exec stale_task_runs_on one_question)) =
     [\<lparr>task = 1, question = ''1'', stage = Extraction\<rparr>] \<and>
   SetSolvedText 0 ''1'' (Str ''solution 1'') \<in> set (trace (exec stale_task_runs_on one_question)) \<and>
   SetState 0 ''1'' Solved \<in> set (trace (exec stale_task_runs_on one_question)) \<and>
   questionStates (exec stale_task_runs_on one_question) ''1'' = Some Solved \<and>
   questionData (exec stale_task_runs_on one_question) ''1'' =
     Some \<lparr>extractedText = Str ''question 1'', solvedText = Str ''solution 1''\<rparr>"
  by code_simp

section \<open>The remaining work never grows\<close>

lemma work_frame:
  "apiCallQueue s' = apiCallQueue s \<Longrightarrow> loops s' = loops s \<Longrightarrow> ready s' = ready s \<Longrightarrow>
   questionStates s' = questionStates s \<Longrightarrow> allQuestions s' = allQuestions s \<Longrightarrow>
   work s' = work s"
  by (simp add: work_def unsolved_count_def)

lemma work_settle: "work (settle c r s) = work s + 1 + call_work c"
  by (simp add: work_def settle_def unsolved_count_def del: call_work.simps)

lemma work_dispatch: "work (dispatch l s) \<le> work s"
  by (simp add: work_def dispatch_def unsolved_count_def del: call_work.simps split: list.splits)

lemma work_drain: "work (drain l s) \<le> work s + 1"
proof -
  have "work (dispatch l s) \<le> work s + 1"
    using work_dispatch [of l s] by simp
  then show ?thesis
    by (simp add: drain_def Let_def) (simp add: work_def unsolved_count_def)
qed

lemma work_processAPIQueue: "work (processAPIQueue s) \<le> work s + 1"
proof -
  have "work (s\<lparr>isProcessingQueue := True, nextLoop := Suc (nextLoop s)\<rparr>) = work s"
    by (rule work_frame) simp_all
  then show ?thesis
    using work_drain [of "nextLoop s" "s\<lparr>isProcessingQueue := True, nextLoop := Suc (nextLoop s)\<rparr>"]
    by (simp add: processAPIQueue_def)
qed

lemma work_rateLimitedAPICall: "work (rateLimitedAPICall c s) \<le> work s + 5 + call_work c"
proof -
  let ?s1 = "s\<lparr>apiCallQueue := apiCallQueue s @ [c], trace := trace s @ [Submit c]\<rparr>"
  have 1: "work ?s1 = work s + 4 + call_work c"
    by (simp add: work_def unsolved_count_def del: call_work.simps)
  show ?thesis
    using work_processAPIQueue [of ?s1] 1
    by (simp add: rateLimitedAPICall_def Let_def del: call_work.simps)
qed

lemma work_await_extract: "work (await_extract t qn s) \<le> work s + 10"
  using work_rateLimitedAPICall [of "\<lparr>task = t, question = qn, stage = Extraction\<rparr>" s]
  by (simp add: await_extract_def Let_def work_settle split: sum.splits)

lemma work_await_solve: "work (await_solve t qn x s) \<le> work s + 5"
  using work_rateLimitedAPICall [of "\<lparr>task = t, question = qn, stage = Solution x\<rparr>" s]
  by (simp add: await_solve_def Let_def work_settle split: sum.splits)

lemma filter_count_less:
  "x \<in> set xs \<Longrightarrow> P x \<Longrightarrow> \<not> Q x \<Longrightarrow> (\<And>y. Q y \<Longrightarrow> P y) \<Longrightarrow>
   length (filter Q xs) < length (filter P xs)"
proof (induction xs)
  case Nil
  then show ?case by simp
next
  case (Cons y ys)
  have le: "length (filter Q ys) \<le> length (filter P ys)"
    using Cons.prems(4) by (induction ys) auto
  show ?case
  proof (cases "x = y")
    case True
    then show ?thesis using Cons.prems le by simp
  next
    case False
    then have "length (filter Q ys) < length (filter P ys)"
      using Cons by auto
    then show ?thesis using Cons.prems(4) by auto
  qed
qed

lemma filter_count_le:
  "(\<And>y. Q y \<Longrightarrow> P y) \<Longrightarrow> length (filter Q xs) \<le> length (filter P xs)"
  by (induction xs) auto

lemma unsolved_count_admit:
  assumes "questionStates s qn = Some Unsolved" "qn \<in> set (allQuestions s)"
    "questionStates s' = (questionStates s)(qn \<mapsto> Extracted)" "allQuestions s' = allQuestions s"
  shows "Suc (unsolved_count s') \<le> unsolved_count s"
proof -
  have "length (filter (\<lambda>q. questionStates s' q = Some Unsolved) (allQuestions s))
      < length (filter (\<lambda>q. questionStates s q = Some Unsolved) (allQuestions s))"
    by (rule filter_count_less [where x = qn]) (use assms in \<open>auto split: if_splits\<close>)
  then show ?thesis by (simp add: unsolved_count_def assms(4))
qed

lemma unsolved_count_write:
  assumes "questionStates s' = (questionStates s)(qn \<mapsto> b)" "b \<noteq> Unsolved"
    "allQuestions s' = allQuestions s"
  shows "unsolved_count s' \<le> unsolved_count s"
proof -
  have "length (filter (\<lambda>q. questionStates s' q = Some Unsolved) (allQuestions s))
      \<le> length (filter (\<lambda>q. questionStates s q = Some Unsolved) (allQuestions s))"
    by (rule filter_count_le) (use assms in \<open>auto split: if_splits\<close>)
  then show ?thesis by (simp add: unsolved_count_def assms(3))
qed

lemma work_begin:
  assumes "questionStates s qn = Some Unsolved" "qn \<in> set (allQuestions s)"
  shows "work (processQuestion_begin qn s) \<le> work s"
proof -
  let ?s1 = "s\<lparr>nextTask := Suc (nextTask s),
              questionData := (questionData s)(qn \<mapsto> \<lparr>extractedText = Null, solvedText = Null\<rparr>),
              questionStates := (questionStates s)(qn \<mapsto> Extracted),
              trace := trace s @ [SetState (nextTask s) qn Extracted]\<rparr>"
  have "Suc (unsolved_count ?s1) \<le> unsolved_count s"
    by (rule unsolved_count_admit [OF assms]) simp_all
  then have "work ?s1 + 10 \<le> work s"
    by (simp add: work_def)
  then show ?thesis
    using work_await_extract [of "nextTask s" qn ?s1]
    by (simp add: processQuestion_begin_def Let_def)
qed

lemma work_fillLoop: "set qs \<subseteq> set (allQuestions s) \<Longrightarrow> work (fillLoop qs a v s) \<le> work s"
proof (induction qs arbitrary: a s)
  case Nil
  show ?case by simp
next
  case (Cons qn rest)
  show ?case
  proof (cases "\<not> int a \<ge> v \<and> questionStates s qn = Some Unsolved")
    case True
    let ?s0 = "s\<lparr>processingBuffer := set_add (processingBuffer s) qn\<rparr>"
    have 0: "work ?s0 = work s" by (rule work_frame) simp_all
    have "work (processQuestion_begin qn ?s0) \<le> work ?s0"
      by (rule work_begin) (use True Cons.prems in simp_all)
    moreover have "work (fillLoop rest (Suc a) v (processQuestion_begin qn ?s0))
        \<le> work (processQuestion_begin qn ?s0)"
      by (rule Cons.IH) (use Cons.prems in simp)
    ultimately show ?thesis using True 0 by simp
  next
    case False
    then show ?thesis using Cons by auto
  qed
qed

lemma work_fillBuffer: "work (fillBuffer s) \<le> work s"
  by (simp add: fillBuffer_def Let_def work_fillLoop)

lemma work_catch: "work (processQuestion_catch qn s) \<le> work s"
proof -
  have "work (s\<lparr>processingBuffer := set_delete (processingBuffer s) qn\<rparr>) = work s"
    by (rule work_frame) simp_all
  then show ?thesis
    using work_fillBuffer [of "s\<lparr>processingBuffer := set_delete (processingBuffer s) qn\<rparr>"]
    by (simp add: processQuestion_catch_def)
qed

lemma work_after_extract: "work (after_extract t qn x s) \<le> work s + 5"
proof (cases "questionData s qn")
  case None
  then show ?thesis using work_catch [of qn s] by (simp add: after_extract_def)
next
  case (Some d)
  let ?s1 = "s\<lparr>questionData := (questionData s)(qn \<mapsto> d\<lparr>extractedText := x\<rparr>)\<rparr>"
  let ?s2 = "?s1\<lparr>questionStates := (questionStates ?s1)(qn \<mapsto> Solving),
                 trace := trace ?s1 @ [SetState t qn Solving]\<rparr>"
  have 1: "work ?s1 = work s" by (rule work_frame) simp_all
  have "unsolved_count ?s2 \<le> unsolved_count s"
    by (rule unsolved_count_write [where qn = qn and b = Solving]) simp_all
  then have "work ?s2 \<le> work s" by (simp add: work_def)
  then have "work (await_solve t qn x ?s2) \<le> work s + 5"
    using work_await_solve [of t qn x ?s2] by simp
  then show ?thesis using Some 1 by (simp add: after_extract_def Let_def)
qed

lemma work_after_solve: "work (after_solve t qn x s) \<le> work s"
proof (cases "questionData s qn")
  case None
  then show ?thesis using work_catch [of qn s] by (simp add: after_solve_def)
next
  case (Some d)
  let ?s1 = "s\<lparr>questionData := (questionData s)(qn \<mapsto> d\<lparr>solvedText := x\<rparr>),
                trace := trace s @ [SetSolvedText t qn x]\<rparr>"
  let ?s2 = "?s1\<lparr>questionStates := (questionStates ?s1)(qn \<mapsto> Solved),
                 trace := trace ?s1 @ [SetState t qn Solved],
                 processingBuffer := set_delete (processingBuffer ?s1) qn\<rparr>"
  have 1: "work ?s1 = work s" by (rule work_frame) simp_all
  have "unsolved_count ?s2 \<le> unsolved_count s"
    by (rule unsolved_count_write [where qn = qn and b = Solved]) simp_all
  then have "work ?s2 \<le> work s" by (simp add: work_def)
  then have "work (fillBuffer ?s2) \<le> work s"
    using work_fillBuffer [of ?s2] by simp
  then show ?thesis using Some 1 by (simp add: after_solve_def Let_def)
qed

lemma take_ready_sum:
  fixes f :: "call \<times> (error + jsvalue) \<Rightarrow> nat"
  shows "take_ready t ps = Some (p, rest) \<Longrightarrow> sum_list (map f ps) = f p + sum_list (map f rest)"
  by (induction ps arbitrary: rest) (auto split: if_splits option.splits)

lemma work_resume:
  assumes "take_ready t (ready s) = Some ((c, r), rest)"
  shows "work (resume t s) < work s"
proof -
  let ?s1 = "s\<lparr>ready := rest\<rparr>"
  have "sum_list (map (\<lambda>p. 1 + call_work (fst p)) (ready s)) =
      1 + call_work c + sum_list (map (\<lambda>p. 1 + call_work (fst p)) rest)"
    using take_ready_sum [OF assms, of "\<lambda>p. 1 + call_work (fst p)"] by simp
  then have 1: "work s = work ?s1 + 1 + call_work c"
    by (simp add: work_def unsolved_count_def del: call_work.simps)
  show ?thesis
  proof (cases r)
    case (Inl e)
    then show ?thesis
      using assms 1 work_catch [of "question c" ?s1] by (simp add: resume_def del: call_work.simps)
  next
    case (Inr x)
    show ?thesis
    proof (cases "stage c")
      case Extraction
      then show ?thesis
        using assms 1 Inr work_after_extract [of t "question c" x ?s1] by (simp add: resume_def)
    next
      case (Solution y)
      then show ?thesis
        using assms 1 Inr work_after_solve [of t "question c" x ?s1] by (simp add: resume_def)
    qed
  qed
qed

lemma sum_list_filter_le:
  fixes f :: "'a \<Rightarrow> nat"
  shows "sum_list (map f (filter P xs)) \<le> sum_list (map f xs)"
  by (induction xs) auto

lemma remove_loop_sum:
  "map_of ls l = Some lp \<Longrightarrow>
   sum_list (map (\<lambda>p. loop_work (snd p)) (remove_loop l ls)) + loop_work lp
     \<le> sum_list (map (\<lambda>p. loop_work (snd p)) ls)"
proof (induction ls)
  case Nil
  then show ?case by simp
next
  case (Cons p ls)
  show ?case
  proof (cases "fst p = l")
    case True
    then have "lp = snd p" using Cons.prems by (cases p) auto
    then show ?thesis
      using True sum_list_filter_le [of "\<lambda>p. loop_work (snd p)" "\<lambda>p. fst p \<noteq> l" ls]
      by (simp add: remove_loop_def)
  next
    case False
    then have "map_of ls l = Some lp" using Cons.prems by (cases p) auto
    then show ?thesis using Cons.IH False by (simp add: remove_loop_def)
  qed
qed

lemma work_tick: "work (step (Tick d) s) = work s"
  by (simp add: work_def unsolved_count_def)

lemma work_timerFired_due:
  assumes "map_of (loops s) l = Some (Waiting due)" "due \<le> now s"
  shows "work (timerFired l s) < work s"
proof -
  let ?s1 = "s\<lparr>loops := remove_loop l (loops s)\<rparr>"
  have "work ?s1 + 1 \<le> work s"
    using remove_loop_sum [OF assms(1)] by (simp add: work_def unsolved_count_def)
  then have "work (dispatch l ?s1) < work s"
    using work_dispatch [of l ?s1] by simp
  then show ?thesis using assms by (simp add: timerFired_def)
qed

lemma work_callDone_in_flight:
  assumes "map_of (loops s) l = Some (InFlight c)"
  shows "work (callDone l r s) < work s"
proof -
  let ?s1 = "s\<lparr>loops := remove_loop l (loops s), lastAPICallTime := now s,
                trace := trace s @ [Finish c (now s)]\<rparr>"
  have "work ?s1 + 3 + call_work c \<le> work s"
    using remove_loop_sum [OF assms] by (simp add: work_def unsolved_count_def del: call_work.simps)
  then have "work (settle c (apiCallFunction r) ?s1) + 2 \<le> work s"
    by (simp add: work_settle del: call_work.simps)
  then have "work (drain l (settle c (apiCallFunction r) ?s1)) < work s"
    using work_drain [of l "settle c (apiCallFunction r) ?s1"] by simp
  then show ?thesis using assms by (simp add: callDone_def)
qed






section \<open>No question is left behind\<close>

lemma in_flight_append [simp]: "in_flight (xs @ ys) = in_flight xs @ in_flight ys"
  by (induction xs rule: in_flight.induct) simp_all

lemma ready_frames [simp]:
  "ready (dispatch l s) = ready s"
  "ready (drain l s) = ready s"
  "ready (processAPIQueue s) = ready s"
  "ready (rateLimitedAPICall c s) = ready s"
  by (simp_all add: dispatch_def drain_def processAPIQueue_def rateLimitedAPICall_def Let_def
      split: list.splits)

lemma waiting_calls_dispatch: "set (waiting_calls (dispatch l s)) = set (waiting_calls s)"
  by (auto simp: waiting_calls_def dispatch_def split: list.splits)

lemma waiting_calls_drain: "set (waiting_calls (drain l s)) = set (waiting_calls s)"
  using waiting_calls_dispatch [of l s]
  by (simp add: drain_def Let_def) (simp add: waiting_calls_def)

lemma waiting_calls_processAPIQueue: "set (waiting_calls (processAPIQueue s)) = set (waiting_calls s)"
  using waiting_calls_drain [of "nextLoop s" "s\<lparr>isProcessingQueue := True, nextLoop := Suc (nextLoop s)\<rparr>"]
  by (simp add: processAPIQueue_def) (simp add: waiting_calls_def)

lemma waiting_calls_rateLimitedAPICall:
  "set (waiting_calls (rateLimitedAPICall c s)) = insert c (set (waiting_calls s))"
  using waiting_calls_processAPIQueue
    [of "s\<lparr>apiCallQueue := apiCallQueue s @ [c], trace := trace s @ [Submit c]\<rparr>"]
  by (simp add: rateLimitedAPICall_def Let_def) (auto simp: waiting_calls_def)

lemma waiting_calls_settle:
  "set (waiting_calls (settle c r s)) = insert c (set (waiting_calls s))"
  by (auto simp: waiting_calls_def settle_def)

lemma settle_ready_fulfilled:
  "(\<forall>p \<in> set (ready s). \<exists>v. snd p = Inr v) \<Longrightarrow>
   (\<forall>p \<in> set (ready (settle c r s)). \<exists>v. snd p = Inr v)"
  by (auto simp: settle_def extract_settle_def solve_settle_def split: stage.splits sum.splits)

lemma live_ok_frame:
  "processingBuffer s' = processingBuffer s \<Longrightarrow> questionStates s' = questionStates s \<Longrightarrow>
   questionData s' = questionData s \<Longrightarrow> allQuestions s' = allQuestions s \<Longrightarrow>
   set (waiting_calls s') = set (waiting_calls s) \<Longrightarrow> ready s' = ready s \<Longrightarrow>
   live_ok X s' = live_ok X s"
  by (simp add: live_ok_def)

lemma live_ok_submitted:
  assumes "live_ok X s" "questionData s (question c) \<noteq> None"
    "processingBuffer s' = processingBuffer s" "questionStates s' = questionStates s"
    "questionData s' = questionData s" "allQuestions s' = allQuestions s"
    "set (waiting_calls s') = insert c (set (waiting_calls s))"
    "\<forall>p \<in> set (ready s'). \<exists>v. snd p = Inr v"
  shows "live_ok (X - {question c}) s'"
  using assms unfolding live_ok_def by auto

lemma live_ok_settle:
  assumes "live_ok X s" "questionData s (question c) \<noteq> None"
  shows "live_ok (X - {question c}) (settle c r s)"
proof -
  have "\<forall>p \<in> set (ready s). \<exists>v. snd p = Inr v"
    using assms(1) by (simp add: live_ok_def)
  then have "\<forall>p \<in> set (ready (settle c r s)). \<exists>v. snd p = Inr v"
    by (rule settle_ready_fulfilled)
  then show ?thesis
    by (intro live_ok_submitted [OF assms]) (simp_all add: waiting_calls_settle)
qed

lemma live_ok_rateLimitedAPICall:
  "live_ok X s \<Longrightarrow> questionData s (question c) \<noteq> None \<Longrightarrow>
   live_ok (X - {question c}) (rateLimitedAPICall c s)"
  by (rule live_ok_submitted [where s = s])
     (simp_all add: waiting_calls_rateLimitedAPICall live_ok_def)

lemma live_ok_await_extract:
  "live_ok X s \<Longrightarrow> questionData s qn \<noteq> None \<Longrightarrow> live_ok (X - {qn}) (await_extract t qn s)"
  using live_ok_settle [of X s "\<lparr>task = t, question = qn, stage = Extraction\<rparr>"]
        live_ok_rateLimitedAPICall [of X s "\<lparr>task = t, question = qn, stage = Extraction\<rparr>"]
  by (simp add: await_extract_def Let_def split: sum.splits)

lemma live_ok_await_solve:
  "live_ok X s \<Longrightarrow> questionData s qn \<noteq> None \<Longrightarrow> live_ok (X - {qn}) (await_solve t qn x s)"
  using live_ok_settle [of X s "\<lparr>task = t, question = qn, stage = Solution x\<rparr>"]
        live_ok_rateLimitedAPICall [of X s "\<lparr>task = t, question = qn, stage = Solution x\<rparr>"]
  by (simp add: await_solve_def Let_def split: sum.splits)

lemma live_ok_not_buffered:
  "live_ok X s \<Longrightarrow> qn \<notin> set (processingBuffer s) \<Longrightarrow> live_ok (X - {qn}) s"
  unfolding live_ok_def by auto

lemma live_ok_admit:
  assumes "live_ok {} s"
  shows "live_ok {} (processQuestion_begin qn (s\<lparr>processingBuffer := set_add (processingBuffer s) qn\<rparr>))"
proof -
  let ?s1 = "s\<lparr>processingBuffer := set_add (processingBuffer s) qn,
              nextTask := Suc (nextTask s),
              questionData := (questionData s)(qn \<mapsto> \<lparr>extractedText = Null, solvedText = Null\<rparr>),
              questionStates := (questionStates s)(qn \<mapsto> Extracted),
              trace := trace s @ [SetState (nextTask s) qn Extracted]\<rparr>"
  have w: "waiting_calls ?s1 = waiting_calls s" by (simp add: waiting_calls_def)
  have "live_ok {qn} ?s1"
    using assms unfolding live_ok_def w by (auto simp: set_add_def)
  then have "live_ok ({qn} - {qn}) (await_extract (nextTask s) qn ?s1)"
    by (rule live_ok_await_extract) simp
  then show ?thesis by (simp add: processQuestion_begin_def Let_def)
qed

lemma live_ok_fillLoop: "live_ok {} s \<Longrightarrow> live_ok {} (fillLoop qs a v s)"
proof (induction qs arbitrary: a s)
  case Nil
  then show ?case by simp
next
  case (Cons qn rest)
  have "live_ok {} (processQuestion_begin qn (s\<lparr>processingBuffer := set_add (processingBuffer s) qn\<rparr>))"
    using Cons.prems by (rule live_ok_admit)
  then show ?case using Cons by simp
qed

lemma live_ok_fillBuffer: "live_ok {} s \<Longrightarrow> live_ok {} (fillBuffer s)"
  by (simp add: fillBuffer_def Let_def live_ok_fillLoop)

lemma take_ready_set:
  "take_ready t ps = Some (p, rest) \<Longrightarrow> set ps = insert p (set rest)"
  by (induction ps arbitrary: rest) (auto split: if_splits option.splits)

lemma live_ok_after_extract:
  assumes "live_ok {qn} s" "questionData s qn \<noteq> None"
  shows "live_ok {} (after_extract t qn x s)"
proof -
  obtain d where d: "questionData s qn = Some d" using assms(2) by auto
  let ?s1 = "s\<lparr>questionData := (questionData s)(qn \<mapsto> d\<lparr>extractedText := x\<rparr>)\<rparr>"
  let ?s2 = "?s1\<lparr>questionStates := (questionStates ?s1)(qn \<mapsto> Solving),
                 trace := trace ?s1 @ [SetState t qn Solving]\<rparr>"
  have w1: "waiting_calls ?s1 = waiting_calls s" by (simp add: waiting_calls_def)
  have w2: "waiting_calls ?s2 = waiting_calls s" by (simp add: waiting_calls_def)
  have 1: "live_ok {qn} ?s1"
    using assms(1) unfolding live_ok_def w1 by auto
  show ?thesis
  proof (cases "qn \<in> set (processingBuffer s)")
    case False
    then have "live_ok ({qn} - {qn}) ?s1"
      by (intro live_ok_not_buffered [OF 1]) simp
    then show ?thesis using False d by (simp add: after_extract_def Let_def)
  next
    case True
    have "live_ok {qn} ?s2"
      using assms(1) True unfolding live_ok_def w2 by auto
    then have "live_ok ({qn} - {qn}) (await_solve t qn x ?s2)"
      by (rule live_ok_await_solve) simp
    then show ?thesis using True d by (simp add: after_extract_def Let_def)
  qed
qed

lemma live_ok_after_solve:
  assumes "live_ok {qn} s" "questionData s qn \<noteq> None"
  shows "live_ok {} (after_solve t qn x s)"
proof -
  obtain d where d: "questionData s qn = Some d" using assms(2) by auto
  let ?s1 = "s\<lparr>questionData := (questionData s)(qn \<mapsto> d\<lparr>solvedText := x\<rparr>),
                trace := trace s @ [SetSolvedText t qn x]\<rparr>"
  let ?s2 = "?s1\<lparr>questionStates := (questionStates ?s1)(qn \<mapsto> Solved),
                 trace := trace ?s1 @ [SetState t qn Solved],
                 processingBuffer := set_delete (processingBuffer ?s1) qn\<rparr>"
  have w1: "waiting_calls ?s1 = waiting_calls s" by (simp add: waiting_calls_def)
  have w2: "waiting_calls ?s2 = waiting_calls s" by (simp add: waiting_calls_def)
  have 1: "live_ok {qn} ?s1"
    using assms(1) unfolding live_ok_def w1 by auto
  show ?thesis
  proof (cases "qn \<in> set (processingBuffer s)")
    case False
    then have "live_ok ({qn} - {qn}) ?s1"
      by (intro live_ok_not_buffered [OF 1]) simp
    then show ?thesis using False d by (simp add: after_solve_def Let_def)
  next
    case True
    have "live_ok {} ?s2"
      using assms(1) unfolding live_ok_def w2 by (auto simp: set_delete_def)
    then have "live_ok {} (fillBuffer ?s2)" by (rule live_ok_fillBuffer)
    then show ?thesis using True d by (simp add: after_solve_def Let_def)
  qed
qed

lemma live_ok_resume:
  assumes "live_ok {} s"
  shows "live_ok {} (resume t s)"
proof (cases "take_ready t (ready s)")
  case None
  then show ?thesis using assms by (simp add: resume_def)
next
  case (Some a)
  then obtain c r rest where tr: "take_ready t (ready s) = Some ((c, r), rest)"
    by (cases a) auto
  have mem: "set (ready s) = insert (c, r) (set rest)"
    using tr by (rule take_ready_set)
  then obtain x where r: "r = Inr x"
    using assms unfolding live_ok_def by auto
  have "c \<in> set (waiting_calls s)"
    using mem by (auto simp: waiting_calls_def intro: rev_image_eqI)
  then have data: "questionData s (question c) \<noteq> None"
    using assms unfolding live_ok_def by blast
  let ?s1 = "s\<lparr>ready := rest\<rparr>"
  have "set (waiting_calls s) \<subseteq> insert c (set (waiting_calls ?s1))"
    using mem by (auto simp: waiting_calls_def)
  moreover have "set (waiting_calls ?s1) \<subseteq> set (waiting_calls s)"
    using mem by (auto simp: waiting_calls_def)
  ultimately have 1: "live_ok {question c} ?s1"
    using assms mem unfolding live_ok_def by (simp; blast)
  have d1: "questionData ?s1 (question c) \<noteq> None" using data by simp
  show ?thesis
  proof (cases "stage c")
    case Extraction
    then show ?thesis
      using tr r live_ok_after_extract [OF 1 d1, of t x] by (simp add: resume_def)
  next
    case (Solution y)
    then show ?thesis
      using tr r live_ok_after_solve [OF 1 d1, of t x] by (simp add: resume_def)
  qed
qed

lemma live_ok_timerFired:
  assumes "limiter_ok s" "live_ok {} s"
  shows "live_ok {} (timerFired l s)"
proof (cases "\<exists>due. map_of (loops s) l = Some (Waiting due) \<and> due \<le> now s")
  case False
  then show ?thesis using assms(2)
    by (auto simp: timerFired_def split: option.splits loop.splits)
next
  case True
  then obtain due where d: "map_of (loops s) l = Some (Waiting due)" "due \<le> now s" by blast
  have "length (loops s) \<le> Suc 0" using assms(1) by (simp add: limiter_ok_def)
  then have ls: "loops s = [(l, Waiting due)]"
    using d(1) by (auto dest!: short_list split: if_splits)
  let ?s1 = "s\<lparr>loops := remove_loop l (loops s)\<rparr>"
  have "set (waiting_calls ?s1) = set (waiting_calls s)"
    using ls by (simp add: waiting_calls_def remove_loop_def)
  then have "set (waiting_calls (dispatch l ?s1)) = set (waiting_calls s)"
    using waiting_calls_dispatch [of l ?s1] by simp
  then have "live_ok {} (dispatch l ?s1) = live_ok {} s"
    by (intro live_ok_frame) simp_all
  then show ?thesis using assms(2) d by (simp add: timerFired_def)
qed

lemma live_ok_callDone:
  assumes "limiter_ok s" "live_ok {} s"
  shows "live_ok {} (callDone l r s)"
proof (cases "\<exists>c. map_of (loops s) l = Some (InFlight c)")
  case False
  then show ?thesis using assms(2)
    by (auto simp: callDone_def split: option.splits loop.splits)
next
  case True
  then obtain c where d: "map_of (loops s) l = Some (InFlight c)" by blast
  have "length (loops s) \<le> Suc 0" using assms(1) by (simp add: limiter_ok_def)
  then have ls: "loops s = [(l, InFlight c)]"
    using d(1) by (auto dest!: short_list split: if_splits)
  let ?s1 = "s\<lparr>loops := remove_loop l (loops s), lastAPICallTime := now s,
                trace := trace s @ [Finish c (now s)]\<rparr>"
  have w: "set (waiting_calls s) = insert c (set (waiting_calls ?s1))"
    using ls by (auto simp: waiting_calls_def remove_loop_def)
  have data: "questionData ?s1 (question c) \<noteq> None"
    using assms(2) w unfolding live_ok_def by auto
  have "live_ok {question c} ?s1"
    using assms(2) w unfolding live_ok_def by auto
  then have "live_ok ({question c} - {question c}) (settle c (apiCallFunction r) ?s1)"
    using data by (rule live_ok_settle)
  then have 2: "live_ok {} (settle c (apiCallFunction r) ?s1)" by simp
  have "live_ok {} (drain l (settle c (apiCallFunction r) ?s1)) =
      live_ok {} (settle c (apiCallFunction r) ?s1)"
    by (intro live_ok_frame) (simp_all add: waiting_calls_drain)
  then show ?thesis using 2 d by (simp add: callDone_def)
qed

lemma live_ok_step:
  assumes "limiter_ok s" "live_ok {} s" "e \<noteq> ResetClick"
  shows "live_ok {} (step e s)"
proof (cases e)
  case (Tick d)
  have "live_ok {} (s\<lparr>now := now s + int d\<rparr>) = live_ok {} s"
    by (rule live_ok_frame) (simp_all add: waiting_calls_def)
  then show ?thesis using assms(2) Tick by simp
next
  case (StoreKey k)
  have "live_ok {} (s\<lparr>apiKey := k\<rparr>) = live_ok {} s"
    by (rule live_ok_frame) (simp_all add: waiting_calls_def)
  then show ?thesis using assms(2) StoreKey by simp
next
  case (StoreImages i)
  have "live_ok {} (s\<lparr>images := i\<rparr>) = live_ok {} s"
    by (rule live_ok_frame) (simp_all add: waiting_calls_def)
  then show ?thesis using assms(2) StoreImages by simp
qed (use assms in \<open>simp_all add: live_ok_timerFired live_ok_callDone live_ok_resume\<close>)

lemma fold_unsolved:
  "fold (\<lambda>qn m. m(qn \<mapsto> Unsolved)) qs m x = (if x \<in> set qs then Some Unsolved else m x)"
  by (induction qs arbitrary: m) auto

lemma live_ok_resetButton [simp]: "live_ok X (s\<lparr>resetButton := b\<rparr>) = live_ok X s"
  by (simp add: live_ok_def waiting_calls_def)

lemma live_ok_page_load:
  assumes "\<forall>qn \<in> set (uniqueQuestions [] imgs). qsel (selector qn) = None"
  shows "live_ok {} (page_load qsel imgs key t)"
proof (cases "imgs = []")
  case True
  have "page_load qsel imgs key t = (declared qsel imgs key t)\<lparr>resetButton := True\<rparr>"
    using page_load_started(1) [OF assms] True by simp
  then show ?thesis
    by (simp add: live_ok_def waiting_calls_def declared_def)
next
  case False
  let ?s = "(declared qsel imgs key t)\<lparr>allQuestions := uniqueQuestions [] imgs\<rparr>"
  let ?c = "?s\<lparr>questionStates := fold (\<lambda>qn m. m(qn \<mapsto> Unsolved)) (allQuestions ?s) Map.empty,
          processingBuffer := [],
          apiCallQueue := [],
          isProcessingQueue := False,
          lastAPICallTime := 0\<rparr>"
  have acc: "selectors_accepted ?s" using assms False by (rule page_load_started(4))
  have eq: "page_load qsel imgs key t = (fst (initializeProcessing ?s))\<lparr>resetButton := True\<rparr>"
    using page_load_started(1) [OF assms] False by simp
  have "live_ok {} (fillBuffer ?c)"
    by (rule live_ok_fillBuffer)
       (simp add: live_ok_def waiting_calls_def fold_unsolved declared_def)
  then have "live_ok {} (fst (initializeProcessing ?s))"
    by (simp only: initializeProcessing_started [OF acc] fst_conv)
  then show ?thesis unfolding eq by simp
qed

lemma run_inv_step: "run_inv s \<Longrightarrow> e \<noteq> ResetClick \<Longrightarrow> run_inv (step e s)"
  by (simp add: run_inv_def sched_inv_step_on limiter_ok_step live_ok_step)


lemma run_inv_page_load:
  "\<forall>qn \<in> set (uniqueQuestions [] imgs). qsel (selector qn) = None \<Longrightarrow>
   run_inv (page_load qsel imgs key t)"
  by (simp add: run_inv_def sched_inv_page_load limiter_ok_page_load live_ok_page_load)

lemma quiet_finished:
  assumes "run_inv s" "loops s = []" "ready s = []"
  shows "finished s"
proof -
  have q: "apiCallQueue s = []"
    using assms by (simp add: run_inv_def limiter_ok_def)
  then have w: "waiting_calls s = []"
    using assms by (simp add: waiting_calls_def)
  have live: "live_ok {} s" and sched: "sched_inv s"
    using assms(1) by (simp_all add: run_inv_def)
  have b: "processingBuffer s = []"
    using live unfolding live_ok_def w by simp
  then have u: "\<forall>qn \<in> set (allQuestions s). questionStates s qn \<noteq> Some Unsolved"
    using sched by (simp add: sched_inv_def backfilled_def BUFFER_SIZE_def)
  have "questionStates s qn = Some Solved" if m: "qn \<in> set (allQuestions s)" for qn
  proof -
    obtain a where a: "questionStates s qn = Some a"
      using live m unfolding live_ok_def by auto
    have "a \<noteq> Unsolved" using u m a by auto
    moreover have "a \<noteq> Extracted" "a \<noteq> Solving"
      using live m a b unfolding live_ok_def by auto
    ultimately show ?thesis using a by (cases a) auto
  qed
  then show ?thesis using b by (simp add: finished_def)
qed

lemma progress_possible:
  assumes "run_inv s" "\<not> finished s"
  shows "\<exists>e d. is_progress e \<and> work (step e (step (Tick d) s)) < work s"
proof (cases "ready s")
  case (Cons p ps)
  obtain c r where p: "p = (c, r)" by (cases p)
  have "take_ready (task c) (ready s) = Some ((c, r), ps)"
    using Cons p by simp
  then have "take_ready (task c) (ready (step (Tick 0) s)) = Some ((c, r), ps)"
    by simp
  then have "work (resume (task c) (step (Tick 0) s)) < work (step (Tick 0) s)"
    by (rule work_resume)
  then have "is_progress (Resume (task c)) \<and>
      work (step (Resume (task c)) (step (Tick 0) s)) < work s"
    by (simp add: work_tick del: step.simps(2))
  then show ?thesis by blast
next
  case Nil
  then have "loops s \<noteq> []"
    using assms quiet_finished by blast
  then obtain l lp ls where ls: "loops s = (l, lp) # ls"
    by (cases "loops s") auto
  show ?thesis
  proof (cases lp)
    case (InFlight c)
    have "map_of (loops (step (Tick 0) s)) l = Some (InFlight c)"
      using ls InFlight by simp
    then have "work (callDone l (FetchRejected []) (step (Tick 0) s)) < work (step (Tick 0) s)"
      by (rule work_callDone_in_flight)
    then have "is_progress (CallDone l (FetchRejected [])) \<and>
        work (step (CallDone l (FetchRejected [])) (step (Tick 0) s)) < work s"
      by (simp add: work_tick del: step.simps(2))
    then show ?thesis by blast
  next
    case (Waiting due)
    let ?d = "nat (due - now s)"
    have "map_of (loops (step (Tick ?d) s)) l = Some (Waiting due)"
      using ls Waiting by simp
    moreover have "due \<le> now (step (Tick ?d) s)" by simp
    ultimately have "work (timerFired l (step (Tick ?d) s)) < work (step (Tick ?d) s)"
      by (rule work_timerFired_due)
    then have "is_progress (TimerFire l) \<and>
        work (step (TimerFire l) (step (Tick ?d) s)) < work s"
      by (simp add: work_tick del: step.simps(2))
    then show ?thesis by blast
  qed
qed

lemma eventually_finished:
  "run_inv s \<Longrightarrow> \<exists>es. ResetClick \<notin> set es \<and> finished (exec es s)"
proof (induction "work s" arbitrary: s rule: less_induct)
  case less
  show ?case
  proof (cases "finished s")
    case True
    then have "ResetClick \<notin> set [] \<and> finished (exec [] s)" by simp
    then show ?thesis by blast
  next
    case False
    then obtain e d where e: "is_progress e" "work (step e (step (Tick d) s)) < work s"
      using progress_possible [OF less.prems] by blast
    have ne: "e \<noteq> ResetClick" using e(1) by auto
    have "run_inv (step e (step (Tick d) s))"
      using less.prems ne by (intro run_inv_step) simp_all
    then obtain es where es: "ResetClick \<notin> set es" "finished (exec es (step e (step (Tick d) s)))"
      using less.hyps [OF e(2)] by blast
    have "ResetClick \<notin> set (Tick d # e # es) \<and> finished (exec (Tick d # e # es) s)"
      using es ne by simp
    then show ?thesis by blast
  qed
qed

section \<open>Tasks run for questions of the registry\<close>

lemma tasks_registered_kept:
  "tasks_registered s \<Longrightarrow> allQuestions s' = allQuestions s \<Longrightarrow>
   set (waiting_calls s') \<subseteq> set (waiting_calls s) \<Longrightarrow> tasks_registered s'"
  by (auto simp: tasks_registered_def)

lemma tasks_registered_submitted:
  "tasks_registered s \<Longrightarrow> question c \<in> set (allQuestions s) \<Longrightarrow>
   allQuestions s' = allQuestions s \<Longrightarrow>
   set (waiting_calls s') \<subseteq> insert c (set (waiting_calls s)) \<Longrightarrow> tasks_registered s'"
  by (auto simp: tasks_registered_def)

lemma tasks_registered_settle:
  "tasks_registered s \<Longrightarrow> question c \<in> set (allQuestions s) \<Longrightarrow>
   tasks_registered (settle c r s)"
  by (rule tasks_registered_submitted [where c = c and s = s])
     (auto simp: waiting_calls_settle)

lemma tasks_registered_rateLimitedAPICall:
  "tasks_registered s \<Longrightarrow> question c \<in> set (allQuestions s) \<Longrightarrow>
   tasks_registered (rateLimitedAPICall c s)"
  by (rule tasks_registered_submitted [where c = c and s = s])
     (auto simp: waiting_calls_rateLimitedAPICall)

lemma tasks_registered_await_extract:
  "tasks_registered s \<Longrightarrow> qn \<in> set (allQuestions s) \<Longrightarrow>
   tasks_registered (await_extract t qn s)"
  by (simp add: await_extract_def Let_def tasks_registered_settle
      tasks_registered_rateLimitedAPICall split: sum.splits)

lemma tasks_registered_await_solve:
  "tasks_registered s \<Longrightarrow> qn \<in> set (allQuestions s) \<Longrightarrow>
   tasks_registered (await_solve t qn x s)"
  by (simp add: await_solve_def Let_def tasks_registered_settle
      tasks_registered_rateLimitedAPICall split: sum.splits)

lemma tasks_registered_begin:
  assumes "tasks_registered s" "qn \<in> set (allQuestions s)"
  shows "tasks_registered (processQuestion_begin qn s)"
proof -
  let ?s1 = "s\<lparr>nextTask := Suc (nextTask s),
              questionData := (questionData s)(qn \<mapsto> \<lparr>extractedText = Null, solvedText = Null\<rparr>),
              questionStates := (questionStates s)(qn \<mapsto> Extracted),
              trace := trace s @ [SetState (nextTask s) qn Extracted]\<rparr>"
  have "tasks_registered ?s1"
    using assms(1) by (rule tasks_registered_kept) (simp_all add: waiting_calls_def)
  then have "tasks_registered (await_extract (nextTask s) qn ?s1)"
    by (rule tasks_registered_await_extract) (simp add: assms(2))
  then show ?thesis by (simp add: processQuestion_begin_def Let_def)
qed

lemma tasks_registered_fillLoop:
  "tasks_registered s \<Longrightarrow> set qs \<subseteq> set (allQuestions s) \<Longrightarrow>
   tasks_registered (fillLoop qs a v s)"
proof (induction qs arbitrary: a s)
  case Nil
  then show ?case by simp
next
  case (Cons qn rest)
  let ?s0 = "s\<lparr>processingBuffer := set_add (processingBuffer s) qn\<rparr>"
  have "tasks_registered ?s0"
    using Cons.prems(1) by (rule tasks_registered_kept) (simp_all add: waiting_calls_def)
  then have 1: "tasks_registered (processQuestion_begin qn ?s0)"
    by (rule tasks_registered_begin) (use Cons.prems(2) in simp)
  have "tasks_registered (fillLoop rest (Suc a) v (processQuestion_begin qn ?s0))"
    by (rule Cons.IH [OF 1]) (use Cons.prems(2) in simp)
  moreover have "tasks_registered (fillLoop rest a v s)"
    by (rule Cons.IH [OF Cons.prems(1)]) (use Cons.prems(2) in simp)
  ultimately show ?case using Cons.prems(1) by simp
qed

lemma tasks_registered_fillBuffer: "tasks_registered s \<Longrightarrow> tasks_registered (fillBuffer s)"
  by (simp add: fillBuffer_def Let_def tasks_registered_fillLoop)

lemma tasks_registered_catch:
  "tasks_registered s \<Longrightarrow> tasks_registered (processQuestion_catch qn s)"
  unfolding processQuestion_catch_def
  by (rule tasks_registered_fillBuffer, erule tasks_registered_kept)
     (simp_all add: waiting_calls_def)

lemma tasks_registered_after_extract:
  assumes "tasks_registered s" "qn \<in> set (allQuestions s)"
  shows "tasks_registered (after_extract t qn x s)"
proof (cases "questionData s qn")
  case None
  then show ?thesis
    using tasks_registered_catch [OF assms(1), of qn] by (simp add: after_extract_def)
next
  case (Some d)
  let ?s1 = "s\<lparr>questionData := (questionData s)(qn \<mapsto> d\<lparr>extractedText := x\<rparr>)\<rparr>"
  let ?s2 = "?s1\<lparr>questionStates := (questionStates ?s1)(qn \<mapsto> Solving),
                 trace := trace ?s1 @ [SetState t qn Solving]\<rparr>"
  have 1: "tasks_registered ?s1"
    using assms(1) by (rule tasks_registered_kept) (simp_all add: waiting_calls_def)
  have "tasks_registered ?s2"
    using assms(1) by (rule tasks_registered_kept) (simp_all add: waiting_calls_def)
  then have "tasks_registered (await_solve t qn x ?s2)"
    by (rule tasks_registered_await_solve) (simp add: assms(2))
  then show ?thesis using Some 1 by (simp add: after_extract_def Let_def)
qed

lemma tasks_registered_after_solve:
  assumes "tasks_registered s"
  shows "tasks_registered (after_solve t qn x s)"
proof (cases "questionData s qn")
  case None
  then show ?thesis
    using tasks_registered_catch [OF assms, of qn] by (simp add: after_solve_def)
next
  case (Some d)
  let ?s1 = "s\<lparr>questionData := (questionData s)(qn \<mapsto> d\<lparr>solvedText := x\<rparr>),
                trace := trace s @ [SetSolvedText t qn x]\<rparr>"
  let ?s2 = "?s1\<lparr>questionStates := (questionStates ?s1)(qn \<mapsto> Solved),
                 trace := trace ?s1 @ [SetState t qn Solved],
                 processingBuffer := set_delete (processingBuffer ?s1) qn\<rparr>"
  have 1: "tasks_registered ?s1"
    using assms by (rule tasks_registered_kept) (simp_all add: waiting_calls_def)
  have "tasks_registered ?s2"
    using assms by (rule tasks_registered_kept) (simp_all add: waiting_calls_def)
  then have "tasks_registered (fillBuffer ?s2)" by (rule tasks_registered_fillBuffer)
  then show ?thesis using Some 1 by (simp add: after_solve_def Let_def)
qed

lemma tasks_registered_resume:
  assumes "tasks_registered s"
  shows "tasks_registered (resume t s)"
proof (cases "take_ready t (ready s)")
  case None
  then show ?thesis using assms by (simp add: resume_def)
next
  case (Some x)
  obtain c r rest where x: "x = ((c, r), rest)" by (metis prod.collapse)
  have rs: "set (ready s) = insert (c, r) (set rest)"
    using Some unfolding x by (rule take_ready_set)
  then have "c \<in> set (waiting_calls s)" by (force simp: waiting_calls_def)
  then have q: "question c \<in> set (allQuestions s)"
    using assms by (simp add: tasks_registered_def)
  have 1: "tasks_registered (s\<lparr>ready := rest\<rparr>)"
    using assms by (rule tasks_registered_kept) (use rs in \<open>auto simp: waiting_calls_def\<close>)
  have "tasks_registered (processQuestion_catch (question c) (s\<lparr>ready := rest\<rparr>))"
    using 1 by (rule tasks_registered_catch)
  moreover have "tasks_registered (after_extract t (question c) v (s\<lparr>ready := rest\<rparr>))" for v
    using 1 by (rule tasks_registered_after_extract) (simp add: q)
  moreover have "tasks_registered (after_solve t (question c) v (s\<lparr>ready := rest\<rparr>))" for v
    using 1 by (rule tasks_registered_after_solve)
  ultimately show ?thesis
    using Some unfolding x by (simp add: resume_def Let_def split: sum.splits stage.splits)
qed

lemma in_flight_remove_loop: "set (in_flight (remove_loop l ls)) \<subseteq> set (in_flight ls)"
  by (induction ls rule: in_flight.induct) (auto simp: remove_loop_def)

lemma in_flight_member: "(l, InFlight c) \<in> set ls \<Longrightarrow> c \<in> set (in_flight ls)"
  by (induction ls rule: in_flight.induct) auto

lemma tasks_registered_timerFired:
  assumes "tasks_registered s"
  shows "tasks_registered (timerFired l s)"
proof -
  let ?s1 = "s\<lparr>loops := remove_loop l (loops s)\<rparr>"
  have "tasks_registered ?s1"
    using assms
    by (rule tasks_registered_kept) (use in_flight_remove_loop in \<open>auto simp: waiting_calls_def\<close>)
  then have "tasks_registered (dispatch l ?s1)"
    by (rule tasks_registered_kept) (simp_all add: waiting_calls_dispatch)
  then show ?thesis
    using assms by (simp add: timerFired_def split: option.splits loop.splits)
qed

lemma tasks_registered_callDone:
  assumes "tasks_registered s"
  shows "tasks_registered (callDone l r s)"
proof (cases "\<exists>c. map_of (loops s) l = Some (InFlight c)")
  case False
  then show ?thesis using assms by (auto simp: callDone_def split: option.splits loop.splits)
next
  case True
  then obtain c where c: "map_of (loops s) l = Some (InFlight c)" by blast
  let ?s1 = "s\<lparr>loops := remove_loop l (loops s), lastAPICallTime := now s,
               trace := trace s @ [Finish c (now s)]\<rparr>"
  have "c \<in> set (in_flight (loops s))"
    using map_of_SomeD [OF c] by (rule in_flight_member)
  then have w: "c \<in> set (waiting_calls s)" by (simp add: waiting_calls_def)
  then have q: "question c \<in> set (allQuestions s)"
    using assms by (simp add: tasks_registered_def)
  have "tasks_registered ?s1"
    using assms
    by (rule tasks_registered_kept) (use in_flight_remove_loop in \<open>auto simp: waiting_calls_def\<close>)
  then have "tasks_registered (settle c (apiCallFunction r) ?s1)"
    by (rule tasks_registered_settle) (simp add: q)
  then have "tasks_registered (drain l (settle c (apiCallFunction r) ?s1))"
    by (rule tasks_registered_kept) (simp_all add: waiting_calls_drain)
  then show ?thesis using c by (simp add: callDone_def)
qed

lemma tasks_registered_initializeProcessing:
  assumes "tasks_registered s"
  shows "tasks_registered (fst (initializeProcessing s))"
proof (cases s rule: initializeProcessing_cases)
  case started
  let ?c = "s\<lparr>questionStates := fold (\<lambda>qn m. m(qn \<mapsto> Unsolved)) (allQuestions s) Map.empty,
          processingBuffer := [],
          apiCallQueue := [],
          isProcessingQueue := False,
          lastAPICallTime := 0\<rparr>"
  have "tasks_registered ?c"
    using assms by (rule tasks_registered_kept) (auto simp: waiting_calls_def)
  then have "tasks_registered (fillBuffer ?c)" by (rule tasks_registered_fillBuffer)
  then show ?thesis by (simp only: started(2) fst_conv)
next
  case (thrown m e)
  have "tasks_registered (s\<lparr>questionStates := m, processingBuffer := [], apiCallQueue := [],
      isProcessingQueue := False, lastAPICallTime := 0\<rparr>)"
    using assms by (rule tasks_registered_kept) (auto simp: waiting_calls_def)
  then show ?thesis by (simp only: thrown(2) fst_conv)
qed

lemma tasks_registered_step: "tasks_registered s \<Longrightarrow> tasks_registered (step e s)"
proof (cases e)
  case ResetClick
  assume a: "tasks_registered s"
  then have "tasks_registered (s\<lparr>processingBuffer := [], questionStates := Map.empty,
      questionData := Map.empty, apiCallQueue := [], isProcessingQueue := False,
      lastAPICallTime := 0\<rparr>)"
    by (rule tasks_registered_kept) (auto simp: waiting_calls_def)
  then show ?thesis
    using ResetClick a by (simp add: resetClick_def tasks_registered_initializeProcessing)
next
  case (Tick d)
  assume "tasks_registered s"
  then show ?thesis using Tick by (simp add: tasks_registered_def waiting_calls_def)
next
  case (StoreKey k)
  assume "tasks_registered s"
  then show ?thesis using StoreKey by (simp add: tasks_registered_def waiting_calls_def)
next
  case (StoreImages i)
  assume "tasks_registered s"
  then show ?thesis using StoreImages by (simp add: tasks_registered_def waiting_calls_def)
qed (simp_all add: tasks_registered_timerFired tasks_registered_callDone tasks_registered_resume)

lemma tasks_registered_exec: "tasks_registered s \<Longrightarrow> tasks_registered (exec es s)"
  by (induction es arbitrary: s) (simp_all add: tasks_registered_step)

lemma tasks_registered_page_load: "tasks_registered (page_load qsel imgs key t)"
proof (cases "imgs = []")
  case True
  then show ?thesis
    by (simp add: page_load_def renderQuestionButtons_def declared_def tasks_registered_def
        waiting_calls_def)
next
  case False
  let ?s = "(declared qsel imgs key t)\<lparr>allQuestions := uniqueQuestions [] imgs\<rparr>"
  have "tasks_registered ?s"
    by (simp add: declared_def tasks_registered_def waiting_calls_def)
  then have 1: "tasks_registered (fst (initializeProcessing ?s))"
    by (rule tasks_registered_initializeProcessing)
  then have 2: "tasks_registered ((fst (initializeProcessing ?s))\<lparr>resetButton := True\<rparr>)"
    by (rule tasks_registered_kept) (simp_all add: waiting_calls_def)
  have "images (declared qsel imgs key t) = imgs" by (simp add: declared_def)
  then have "page_load qsel imgs key t = fst (initializeProcessing ?s) \<or>
      page_load qsel imgs key t = (fst (initializeProcessing ?s))\<lparr>resetButton := True\<rparr>"
    using False
    by (auto simp: page_load_def renderQuestionButtons_def split: prod.splits option.splits)
  then show ?thesis using 1 2 by auto
qed

text \<open>
  In every state an execution reaches, each suspended task runs for a question of the
  registry, and \<open>updateButtonState\<close> returns for the question of each suspended task: the
  calls of \<open>updateButtonState\<close> that \<open>processQuestion\<close> makes when it starts and when it
  resumes do not throw.
\<close>

lemma tasks_in_registry: "tasks_registered (exec es (page_load qsel imgs key t))"
  by (rule tasks_registered_exec) (rule tasks_registered_page_load)

lemma tasks_selectors_accepted:
  assumes "s = exec es (page_load qsel imgs key t)" and "c \<in> set (waiting_calls s)"
  shows "updateButtonState s (question c) = None"
proof -
  have "\<not> load_aborted s"
    using assms(2) by (auto simp: load_aborted_def waiting_calls_def)
  then have "selectors_accepted s"
    using reachable_cases [of es qsel imgs key t] assms(1) by simp
  moreover have "question c \<in> set (allQuestions s)"
    using tasks_in_registry [of es qsel imgs key t] assms by (simp add: tasks_registered_def)
  ultimately show ?thesis by (simp add: selectors_accepted_def)
qed

section \<open>Every question is admitted and solved\<close>





section \<open>Images without a question number\<close>

lemma uniqueQuestions_set:
  "set (uniqueQuestions keys imgs) = set keys \<union> questionKey ` set imgs"
  by (induction imgs arbitrary: keys) (auto simp: Let_def)

lemma uniqueQuestions_distinct:
  "distinct keys \<Longrightarrow> distinct (uniqueQuestions keys imgs)"
  by (induction imgs arbitrary: keys) (auto simp: Let_def)

lemma initializeProcessing_registry:
  "initializeProcessing s = (x, r) \<Longrightarrow> allQuestions x = allQuestions s"
  using initializeProcessing_document(3) [of s] by simp

lemma page_load_allQuestions:
  "allQuestions (page_load qsel imgs key t) = uniqueQuestions [] imgs"
proof (cases "imgs = []")
  case True
  then show ?thesis by (simp add: page_load_def renderQuestionButtons_def declared_def)
next
  case False
  moreover have "images (declared qsel imgs key t) = imgs" by (simp add: declared_def)
  ultimately show ?thesis
    by (auto simp: page_load_def renderQuestionButtons_def
        dest: initializeProcessing_registry split: prod.splits option.splits)
qed

lemma getQuestionImages_default:
  "getQuestionImages imgs ''No Q#'' =
     filter (\<lambda>i. questionNumber i = None \<or> questionNumber i = Some [] \<or>
                 questionNumber i = Some ''No Q#'') imgs"
  unfolding getQuestionImages_def
  by (rule filter_cong) (auto simp: questionKey_def split: option.splits)

text \<open>
  Claim C10 as stated fails, in two ways. An image whose question number is the text
  \<open>No Q#\<close> itself is neither absent nor empty, and \<open>getQuestionImages\<close> returns it with the
  images that have no number. And on a page that also has an image numbered \<open>3"\<close> the load
  throws in \<open>updateButtonState\<close>: the entry \<open>No Q#\<close> is in the registry, unsolved, and is not
  processed, whatever events follow (lemma \<open>aborted_load_stalls\<close>).
\<close>

theorem no_number_group_counterexample:
  "questionNumber (labelled ''No Q#'') \<noteq> None \<and>
   questionNumber (labelled ''No Q#'') \<noteq> Some [] \<and>
   getQuestionImages mixed_images ''No Q#'' =
     [\<lparr>dataUrl = ''data:a'', questionNumber = None\<rparr>,
      \<lparr>dataUrl = ''data:c'', questionNumber = Some []\<rparr>,
      labelled ''No Q#''] \<and>
   allQuestions unnumbered_and_quoted = [''No Q#'', ''3'' @ [CHR 0x22]] \<and>
   browser (selector ''No Q#'') = None \<and>
   browser (selector (''3'' @ [CHR 0x22])) = Some (Error ''SyntaxError: not a valid selector'') \<and>
   questionStates unnumbered_and_quoted ''No Q#'' = Some Unsolved \<and>
   processingBuffer unnumbered_and_quoted = [] \<and>
   questionStates (exec serve_one unnumbered_and_quoted) ''No Q#'' = Some Unsolved \<and>
   processingBuffer (exec serve_one unnumbered_and_quoted) = [] \<and>
   trace (exec serve_one unnumbered_and_quoted) = []"
  by code_simp

text \<open>
  Claim C10, amended. An image whose question number is absent or empty gets the identifier
  \<open>No Q#\<close>. The registry built at the load has each identifier once, and exactly the
  identifiers of the stored images, so all those images share the one entry \<open>No Q#\<close>; the
  registry stays as built in every execution. When the document takes the selector of
  every question number of the stored images, the pipeline can be run until every entry,
  \<open>No Q#\<close> like the others, is solved. \<open>getQuestionImages\<close> of \<open>No Q#\<close> returns, in their
  stored order, exactly the images whose number is absent, empty or the text \<open>No Q#\<close>.
\<close>

theorem no_number_group:
  "(\<forall>i \<in> set imgs. questionNumber i = None \<or> questionNumber i = Some [] \<longrightarrow>
      questionKey i = ''No Q#'') \<and>
   allQuestions (exec es (page_load qsel imgs key t)) = uniqueQuestions [] imgs \<and>
   distinct (uniqueQuestions [] imgs) \<and>
   set (uniqueQuestions [] imgs) = questionKey ` set imgs \<and>
   ((\<forall>qn \<in> set (uniqueQuestions [] imgs). qsel (selector qn) = None) \<longrightarrow>
      (\<exists>es'. ResetClick \<notin> set es' \<and>
         (\<forall>qn \<in> set (uniqueQuestions [] imgs).
            questionStates (exec es' (page_load qsel imgs key t)) qn = Some Solved))) \<and>
   getQuestionImages imgs ''No Q#'' =
     filter (\<lambda>i. questionNumber i = None \<or> questionNumber i = Some [] \<or>
                 questionNumber i = Some ''No Q#'') imgs"
proof -
  have "\<exists>es'. ResetClick \<notin> set es' \<and>
      (\<forall>qn \<in> set (uniqueQuestions [] imgs).
         questionStates (exec es' (page_load qsel imgs key t)) qn = Some Solved)"
    if acc: "\<forall>qn \<in> set (uniqueQuestions [] imgs). qsel (selector qn) = None"
  proof -
    obtain es' where "ResetClick \<notin> set es'" "finished (exec es' (page_load qsel imgs key t))"
      using eventually_finished [OF run_inv_page_load [OF acc]] by blast
    then show ?thesis
      unfolding finished_def by (auto simp: page_load_allQuestions)
  qed
  then show ?thesis
    by (auto simp: page_load_allQuestions uniqueQuestions_distinct uniqueQuestions_set
        getQuestionImages_default questionKey_def)
qed

theorem no_number_group_witness:
  "questionKey \<lparr>dataUrl = ''data:a'', questionNumber = None\<rparr> = ''No Q#'' \<and>
   questionKey \<lparr>dataUrl = ''data:c'', questionNumber = Some []\<rparr> = ''No Q#'' \<and>
   allQuestions (exec [Tick 5] (page_load browser mixed_images (Some ''key'') 1700000000000)) =
     [''No Q#'', ''2''] \<and>
   list_all (\<lambda>qn. browser (selector qn) = None) (uniqueQuestions [] mixed_images) \<and>
   (\<exists>es'. ResetClick \<notin> set es' \<and>
      map (questionStates (exec es' (page_load browser mixed_images (Some ''key'') 1700000000000)))
        [''No Q#'', ''2''] = [Some Solved, Some Solved]) \<and>
   getQuestionImages mixed_images ''No Q#'' =
     [\<lparr>dataUrl = ''data:a'', questionNumber = None\<rparr>,
      \<lparr>dataUrl = ''data:c'', questionNumber = Some []\<rparr>,
      labelled ''No Q#'']"
proof -
  have u: "uniqueQuestions [] mixed_images = [''No Q#'', ''2'']" by code_simp
  have f: "filter (\<lambda>i. questionNumber i = None \<or> questionNumber i = Some [] \<or>
                 questionNumber i = Some ''No Q#'') mixed_images =
     [\<lparr>dataUrl = ''data:a'', questionNumber = None\<rparr>,
      \<lparr>dataUrl = ''data:c'', questionNumber = Some []\<rparr>,
      labelled ''No Q#'']"
    by code_simp
  have m: "\<lparr>dataUrl = ''data:a'', questionNumber = None\<rparr> \<in> set mixed_images"
    "\<lparr>dataUrl = ''data:c'', questionNumber = Some []\<rparr> \<in> set mixed_images"
    by (simp_all add: mixed_images_def)
  have l: "list_all (\<lambda>qn. browser (selector qn) = None) (uniqueQuestions [] mixed_images)"
    by code_simp
  then have k: "\<forall>qn \<in> set (uniqueQuestions [] mixed_images). browser (selector qn) = None"
    by (simp add: list_all_iff)
  note t = no_number_group [of mixed_images "[Tick 5]" browser "Some ''key''" 1700000000000]
  have k1: "questionKey \<lparr>dataUrl = ''data:a'', questionNumber = None\<rparr> = ''No Q#''"
    using t m(1) by auto
  have k2: "questionKey \<lparr>dataUrl = ''data:c'', questionNumber = Some []\<rparr> = ''No Q#''"
    using t m(2) by auto
  have "\<exists>es'. ResetClick \<notin> set es' \<and>
         (\<forall>qn \<in> set (uniqueQuestions [] mixed_images).
            questionStates (exec es' (page_load browser mixed_images (Some ''key'') 1700000000000)) qn =
              Some Solved)"
    using t k by blast
  then have p: "\<exists>es'. ResetClick \<notin> set es' \<and>
      map (questionStates (exec es' (page_load browser mixed_images (Some ''key'') 1700000000000)))
        [''No Q#'', ''2''] = [Some Solved, Some Solved]"
    unfolding u by auto
  have a: "allQuestions (exec [Tick 5] (page_load browser mixed_images (Some ''key'') 1700000000000)) =
     [''No Q#'', ''2'']"
    using t u by simp
  have g: "getQuestionImages mixed_images ''No Q#'' =
     [\<lparr>dataUrl = ''data:a'', questionNumber = None\<rparr>,
      \<lparr>dataUrl = ''data:c'', questionNumber = Some []\<rparr>,
      labelled ''No Q#'']"
    using t f by simp
  show ?thesis using k1 k2 a l p g by blast
qed

end
